theory Spec2Isabelle
  imports Complex_Main "HOL-Library.AList"
begin

section \<open>Python values shared by all components\<close>

text \<open>Exceptions of the Python runtime that the modelled code can raise.\<close>

datatype exn = KeyError | IndexError | ValueError | TransportError

text \<open>\<^verbatim>\<open>s.strip(chars)\<close>: drop every leading and trailing character that occurs in
  \<open>chars\<close>.\<close>

definition strip_chars :: "string \<Rightarrow> string \<Rightarrow> string" where
  "strip_chars chars s =
     rev (dropWhile (\<lambda>c. c \<in> set chars) (rev (dropWhile (\<lambda>c. c \<in> set chars) s)))"

text \<open>\<^verbatim>\<open>s.split(sep)\<close> for a one-character separator: the fields between the
  separators, at least one field.\<close>

fun split_on :: "char \<Rightarrow> string \<Rightarrow> string list" where
  "split_on sep [] = [[]]"
| "split_on sep (c # cs) =
     (if c = sep then [] # split_on sep cs
      else (case split_on sep cs of f # fs \<Rightarrow> (c # f) # fs | [] \<Rightarrow> [[c]]))"

text \<open>\<^verbatim>\<open>xs[i]\<close> for a non-negative index: IndexError out of range.\<close>

definition index :: "'a list \<Rightarrow> nat \<Rightarrow> exn + 'a" where
  "index xs i = (if i < length xs then Inr (xs ! i) else Inl IndexError)"

text \<open>\<^verbatim>\<open>s[i:j]\<close> for non-negative bounds; a slice never raises.\<close>

definition slice :: "'a list \<Rightarrow> nat \<Rightarrow> nat \<Rightarrow> 'a list" where
  "slice s i j = take (j - i) (drop i s)"

text \<open>\<^verbatim>\<open>int(s, 16)\<close>. The model accepts the non-empty strings of hexadecimal digits
  and raises ValueError on every other string (Python also accepts a sign, a \<^verbatim>\<open>0x\<close> prefix,
  underscores and surrounding white space, which the panel's frames do not carry).\<close>

definition hexdigit :: "char \<Rightarrow> nat option" where
  "hexdigit c =
     map_of [(CHR ''0'', 0), (CHR ''1'', 1), (CHR ''2'', 2), (CHR ''3'', 3), (CHR ''4'', 4),
             (CHR ''5'', 5), (CHR ''6'', 6), (CHR ''7'', 7), (CHR ''8'', 8), (CHR ''9'', 9),
             (CHR ''A'', 10), (CHR ''B'', 11), (CHR ''C'', 12), (CHR ''D'', 13), (CHR ''E'', 14),
             (CHR ''F'', 15), (CHR ''a'', 10), (CHR ''b'', 11), (CHR ''c'', 12), (CHR ''d'', 13),
             (CHR ''e'', 14), (CHR ''f'', 15)] c"

fun hexacc :: "nat \<Rightarrow> string \<Rightarrow> nat option" where
  "hexacc acc [] = Some acc"
| "hexacc acc (c # cs) =
     (case hexdigit c of None \<Rightarrow> None | Some d \<Rightarrow> hexacc (16 * acc + d) cs)"

definition int16 :: "string \<Rightarrow> exn + nat" where
  "int16 s = (if s = [] then Inl ValueError
              else case hexacc 0 s of None \<Rightarrow> Inl ValueError | Some n \<Rightarrow> Inr n)"

text \<open>\<^verbatim>\<open>n & 1 << k\<close> as a truth value.\<close>

definition bit_set :: "nat \<Rightarrow> nat \<Rightarrow> bool" where
  "bit_set n k = odd (n div 2 ^ k)"

text \<open>\<^verbatim>\<open>'%03d' % n\<close> for a natural number below 1000.\<close>

definition digit_char :: "nat \<Rightarrow> char" where
  "digit_char d = ''0123456789'' ! (d mod 10)"

definition fmt03d :: "nat \<Rightarrow> string" where
  "fmt03d n = [digit_char (n div 100 mod 10), digit_char (n div 10 mod 10), digit_char (n mod 10)]"

text \<open>\<^verbatim>\<open>s.startswith(p)\<close> and \<^verbatim>\<open>p in s\<close> for strings.\<close>

definition startswith :: "string \<Rightarrow> string \<Rightarrow> bool" where
  "startswith s p = (take (length p) s = p)"

fun is_substr :: "string \<Rightarrow> string \<Rightarrow> bool" where
  "is_substr p [] = (p = [])"
| "is_substr p (c # cs) = (startswith (c # cs) p \<or> is_substr p cs)"

subsection \<open>Floating point\<close>

text \<open>Python's \<^verbatim>\<open>float\<close> is the IEEE 754 double. \<open>fl\<close> rounds a real number to the nearest
  number of 53 significant bits, a tie to the one with an even last bit, as every float
  operation of the code does with its exact result. The exponent is not bounded: overflow and
  subnormal numbers, which begin beyond \<open>10^308\<close> and below \<open>10^-307\<close>, are not modelled.
  \<open>py_round\<close> is \<^verbatim>\<open>round(x)\<close> (a half goes to the even neighbour), \<open>py_int\<close> is \<^verbatim>\<open>int(x)\<close>
  (truncation towards zero), \<open>truediv\<close> is \<^verbatim>\<open>a / b\<close> on two integers and \<open>float_of_int\<close> the
  conversion of an integer operand of a mixed operation.\<close>

definition py_round :: "real \<Rightarrow> int" where
  "py_round x =
     (let f = \<lfloor>x\<rfloor>; r = x - of_int f
      in if r < 1 / 2 then f else if r > 1 / 2 then f + 1 else if even f then f else f + 1)"

definition round53 :: "real \<Rightarrow> real" where
  "round53 x =
     (let e = \<lfloor>log 2 x\<rfloor>; u = 2 powr of_int (e - 52)
      in of_int (py_round (x / u)) * u)"

definition fl :: "real \<Rightarrow> real" where
  "fl x = (if x = 0 then 0 else if 0 < x then round53 x else - round53 (- x))"

definition py_int :: "real \<Rightarrow> int" where
  "py_int x = (if 0 \<le> x then \<lfloor>x\<rfloor> else \<lceil>x\<rceil>)"

definition truediv :: "int \<Rightarrow> int \<Rightarrow> real" where
  "truediv a b = fl (of_int a / of_int b)"

definition float_of_int :: "int \<Rightarrow> real" where
  "float_of_int i = fl (of_int i)"

subsection \<open>Dictionaries\<close>

text \<open>A Python \<^verbatim>\<open>dict\<close> keeps its keys distinct and in insertion order; it is modelled
  as an association list. \<^verbatim>\<open>d[k] = v\<close> is \<^const>\<open>AList.update\<close> (in place for a key
  that is present, appended otherwise), \<^verbatim>\<open>d[k]\<close> is \<^const>\<open>map_of\<close> with KeyError for
  \<open>None\<close>, \<^verbatim>\<open>d.pop(k)\<close> is \<^const>\<open>AList.delete\<close> with KeyError for a missing key.\<close>

definition wf_dict :: "('k \<times> 'v) list \<Rightarrow> bool" where
  "wf_dict d = distinct (map fst d)"

definition getitem :: "('k \<times> 'v) list \<Rightarrow> 'k \<Rightarrow> exn + 'v" where
  "getitem d k = (case map_of d k of None \<Rightarrow> Inl KeyError | Some v \<Rightarrow> Inr v)"

text \<open>The pruning methods of the three classes share one computation: the keys in
  ascending order, and of those the first \<open>popLim\<close>, the surplus over the capacity.
  \<^verbatim>\<open>
        keys = sorted(d.keys())
        popLim = 0
        length = len(keys)
        if length > self.MAX_HISTORY : popLim = (length - self.MAX_HISTORY)
        for x in range(0, popLim) :
            k = keys[x]
  \<close>\<close>

definition surplus_keys :: "nat \<Rightarrow> (int \<times> 'v) list \<Rightarrow> int list" where
  "surplus_keys MAX_HISTORY d =
     (let keys = sort (map fst d);
          popLim = (if length keys > MAX_HISTORY then length keys - MAX_HISTORY else 0)
      in take popLim keys)"

text \<open>Two dictionaries that are popped together (\<^verbatim>\<open>a.pop(k); b.pop(k)\<close> for each key
  of the list): the first missing key raises KeyError.\<close>

fun pop_both :: "int list \<Rightarrow> (int \<times> 'a) list \<Rightarrow> (int \<times> 'b) list
                   \<Rightarrow> exn + ((int \<times> 'a) list \<times> (int \<times> 'b) list)" where
  "pop_both [] a b = Inr (a, b)"
| "pop_both (k # ks) a b =
     (if k \<notin> fst ` set a \<or> k \<notin> fst ` set b then Inl KeyError
      else pop_both ks (AList.delete k a) (AList.delete k b))"

section \<open>Protocol engine (telnetEVL4.py)\<close>

subsection \<open>Message decoders\<close>

text \<open>\<^verbatim>\<open>doType00\<close>: the keypad status flags as text. Bits 11, 10 and 6 are unused; bit 3
  has an else branch.\<close>

definition doType00 :: "string \<Rightarrow> exn + string" where
  "doType00 msg =
     (case index (split_on CHR '','' msg) 2 of
        Inl e \<Rightarrow> Inl e
      | Inr field \<Rightarrow>
         (case int16 field of
            Inl e \<Rightarrow> Inl e
          | Inr myint \<Rightarrow>
             Inr (strip_chars '' ,''
               ((if bit_set myint 15 then ''ARMED STAY,'' else [])
              @ (if bit_set myint 14 then ''LOW BATTERY,'' else [])
              @ (if bit_set myint 13 then ''FIRE,'' else [])
              @ (if bit_set myint 12 then ''SYSTEM READY,'' else [])
              @ (if bit_set myint 9 then ''SYSTEM TROUBLE,'' else [])
              @ (if bit_set myint 8 then ''FIRE ZONE ALARM,'' else [])
              @ (if bit_set myint 7 then ''ARMED NO DELAY,'' else [])
              @ (if bit_set myint 5 then ''CHIME,'' else [])
              @ (if bit_set myint 4 then ''ZONES BYPASSED,'' else [])
              @ (if bit_set myint 3 then ''AC PRESENT,'' else ''AC LOSS,'')
              @ (if bit_set myint 2 then ''ARMED AWAY,'' else [])
              @ (if bit_set myint 1 then ''ALARM IN MEMORY,'' else [])
              @ (if bit_set myint 0 then ''ALARMED STATE,'' else [])
              @ (if is_substr ''NIGHT-STAY'' msg then ''NIGHT-STAY,'' else [])
              @ (if is_substr ''DISARMED'' msg then ''DISARMED,'' else [])))))"

text \<open>One iteration of the loop of \<^verbatim>\<open>doType01\<close>: the sixteen bit tests in the
  order of the source, then the strip of the trailing comma, which the source has inside
  the loop.\<close>

definition zone_tests :: "(nat \<times> nat) list" where
  "zone_tests = [(8, 1), (9, 2), (10, 3), (11, 4), (12, 5), (13, 6), (14, 7), (15, 8),
                 (0, 9), (1, 10), (2, 11), (3, 12), (4, 13), (5, 14), (6, 15), (7, 16)]"

definition doType01_group :: "nat \<Rightarrow> nat \<Rightarrow> string \<Rightarrow> string" where
  "doType01_group x zbits znums =
     (let znums' = fold (\<lambda>(b, off) z. if bit_set zbits b then z @ fmt03d (16 * x + off) @ '','' else z)
                        zone_tests znums
      in if znums' \<noteq> [] then strip_chars '','' znums' else znums')"

fun doType01_loop :: "string \<Rightarrow> nat list \<Rightarrow> string \<Rightarrow> exn + string" where
  "doType01_loop zones [] znums = Inr znums"
| "doType01_loop zones (x # xs) znums =
     (case int16 (slice zones (x * 4) (x * 4 + 4)) of
        Inl e \<Rightarrow> Inl e
      | Inr zbits \<Rightarrow> doType01_loop zones xs (doType01_group x zbits znums))"

definition doType01 :: "string \<Rightarrow> exn + string" where
  "doType01 msg =
     (case index (split_on CHR '','' msg) 1 of
        Inl e \<Rightarrow> Inl e
      | Inr z \<Rightarrow> doType01_loop (strip_chars ''$'' z) [0 ..< 8] '''')"

text \<open>\<^verbatim>\<open>doType02\<close>: the state of each of the eight partitions; a state outside the
  table \<open>pstates\<close> raises KeyError.\<close>

definition pstates :: "(nat \<times> string) list" where
  "pstates = [(1, ''READY''), (2, ''READY TO ARM''), (3, ''NOT READY''), (4, ''ARMED STAY''),
     (5, ''ARMED AWAY''), (6, ''ARMED INSTANT''), (7, ''EXIT DELAY''), (8, ''ALARMING NOW''),
     (9, ''WAS ALARMING''), (10, ''ARMED MAXIMUM'')]"

fun doType02_loop :: "string \<Rightarrow> nat list \<Rightarrow> string \<Rightarrow> exn + string" where
  "doType02_loop partitions [] notice = Inr notice"
| "doType02_loop partitions (x # xs) notice =
     (case int16 (slice partitions (x * 2) (x * 2 + 2)) of
        Inl e \<Rightarrow> Inl e
      | Inr intstate \<Rightarrow>
         (if intstate \<noteq> 0
          then (case getitem pstates intstate of
                  Inl e \<Rightarrow> Inl e
                | Inr p \<Rightarrow> doType02_loop partitions xs
                            (notice @ ''PTN'' @ [digit_char (x + 1)] @ ''='' @ p @ '',''))
          else doType02_loop partitions xs notice))"

definition doType02 :: "string \<Rightarrow> exn + string" where
  "doType02 msg =
     (case index (split_on CHR '','' msg) 1 of
        Inl e \<Rightarrow> Inl e
      | Inr p \<Rightarrow>
         (case doType02_loop (strip_chars ''$'' p) [0 ..< 8] [] of
            Inl e \<Rightarrow> Inl e
          | Inr notice \<Rightarrow> Inr (strip_chars '','' notice)))"

definition doType03 :: "string \<Rightarrow> exn + string" where
  "doType03 msg =
     (case index (split_on CHR '','' msg) 1 of
        Inl e \<Rightarrow> Inl e
      | Inr tmpstr \<Rightarrow> Inr (''CID='' @ strip_chars ''$'' tmpstr))"

definition doTypeFF :: "string \<Rightarrow> exn + string" where
  "doTypeFF msg = Inr ''Zone nnn Closed mm Minutes Ago''"

subsection \<open>Rolling histories of the protocol engine\<close>

text \<open>\<^verbatim>\<open>self.recentMsgs\<close> is a dictionary of twenty-three dictionaries, each keyed by
  the nanosecond time stamp of arrival.\<close>

datatype hist =
    Msg00raw | Msg00txt | Msg01raw | Msg01txt | Msg02raw | Msg02txt | Msg03raw | Msg03txt
  | MsgFFraw | MsgFFtxt | Req00 | Rsp00 | Req01 | Rsp01 | Req02 | Rsp02 | Req03 | Rsp03
  | Msgflag00 | Msgflag01 | Msgflag02 | Msgflag03 | MsgflagFF

record tel_state =
  recentMsgs :: "hist \<Rightarrow> (int \<times> string) list"

definition tel_MAX_HISTORY :: nat where
  "tel_MAX_HISTORY = 2"

definition tel_init :: tel_state where
  "tel_init = \<lparr>recentMsgs = (\<lambda>h. [])\<rparr>"

definition setitem :: "hist \<Rightarrow> int \<Rightarrow> string \<Rightarrow> tel_state \<Rightarrow> tel_state" where
  "setitem h ts v st = st\<lparr>recentMsgs := (recentMsgs st)(h := AList.update ts v (recentMsgs st h))\<rparr>"

text \<open>\<^verbatim>\<open>pruneAll\<close>: every history drops its oldest surplus keys. The keys popped are
  keys of the same dictionary, so \<^verbatim>\<open>pop\<close> cannot raise.\<close>

definition prune_history :: "(int \<times> string) list \<Rightarrow> (int \<times> string) list" where
  "prune_history d = fold AList.delete (surplus_keys tel_MAX_HISTORY d) d"

definition pruneAll :: "tel_state \<Rightarrow> tel_state" where
  "pruneAll st = st\<lparr>recentMsgs := (\<lambda>key1. prune_history (recentMsgs st key1))\<rparr>"

text \<open>The three assignments of a \<^verbatim>\<open>%TT\<close> branch of \<^verbatim>\<open>getNextMessage\<close>: the raw message is
  stored first; if the decoder raises, the text and the flag are not stored (the exception
  is caught by \<^verbatim>\<open>getNextMessage\<close>).\<close>

definition store_message ::
  "hist \<Rightarrow> hist \<Rightarrow> hist \<Rightarrow> (string \<Rightarrow> exn + string) \<Rightarrow> int \<Rightarrow> string \<Rightarrow> tel_state \<Rightarrow> tel_state" where
  "store_message raw txt flag decode ts msg st =
     (case decode msg of
        Inl e \<Rightarrow> setitem raw ts msg st
      | Inr t \<Rightarrow> setitem flag ts ''1'' (setitem txt ts t (setitem raw ts msg st)))"

text \<open>\<^verbatim>\<open>getNextMessage\<close>. \<open>rx\<close> is what \<^verbatim>\<open>read_until\<close> delivers, decoded and stripped, or
  the exception it raises; \<open>now\<close> is the reading of \<^verbatim>\<open>time.time_ns()\<close> (each branch reads
  the clock once). An exception leads to \<^verbatim>\<open>doReconnect\<close>, which touches the connection
  only and is not part of the state modelled here; \<^verbatim>\<open>pruneAll\<close> runs in every case.\<close>

definition getNextMessage :: "exn + string \<Rightarrow> int \<Rightarrow> tel_state \<Rightarrow> tel_state" where
  "getNextMessage rx now st =
     pruneAll
       (case rx of
          Inl e \<Rightarrow> st
        | Inr msg \<Rightarrow>
           if startswith msg ''^09'' then st
           else if startswith msg ''^00'' then setitem Rsp00 now msg st
           else if startswith msg ''^01'' then setitem Rsp01 now msg st
           else if startswith msg ''^02'' then setitem Rsp02 now msg st
           else if startswith msg ''^03'' then setitem Rsp03 now msg st
           else if startswith msg ''%00'' then store_message Msg00raw Msg00txt Msgflag00 doType00 now msg st
           else if startswith msg ''%01'' then store_message Msg01raw Msg01txt Msgflag01 doType01 now msg st
           else if startswith msg ''%02'' then store_message Msg02raw Msg02txt Msgflag02 doType02 now msg st
           else if startswith msg ''%03'' then store_message Msg03raw Msg03txt Msgflag03 doType03 now msg st
           else if startswith msg ''%FF'' then store_message MsgFFraw MsgFFtxt MsgflagFF doTypeFF now msg st
           else st)"

definition tel_inv :: "tel_state \<Rightarrow> bool" where
  "tel_inv st = (\<forall>h. wf_dict (recentMsgs st h))"

section \<open>Configuration (config.py)\<close>

text \<open>The configuration object \<^verbatim>\<open>cnf1\<close> as the core sees it through its getters: typed,
  validated values. \<open>CountSMS\<close> and \<open>SMSLatestDate\<close> are the persisted SMS metrics, which
  \<^verbatim>\<open>updateSMSmetrics\<close> and \<^verbatim>\<open>resetSMSmetrics\<close> rewrite. The latest date is the text
  \<^verbatim>\<open>UNKNOWN\<close> or a date and time \<^verbatim>\<open>YYYY-MM-DD HH:MM:SS\<close>, given as year, month, day and the
  seconds since midnight.\<close>

datatype latest_date = UNKNOWN | SentAt int int int int

record config =
  RecentSecondsEVL4 :: int
  AdjacentSecondsEVL4 :: int
  RecentSecondsSMS :: int
  doSendSMS :: bool
  RenewalDay :: int
  SMS_Allowance :: int
  CountSMS :: int
  SMSLatestDate :: latest_date
  RedAlertCellPhones :: "string list"
  YellowAlertCellPhones :: "string list"
  RebootAlertCellPhones :: "string list"
  InboundSMSCellPhones :: "string list"
  NotTheseTokens :: "string list"
  UrgentTokens :: "string list"
  ImportantTokens :: "string list"

text \<open>A configuration used in the examples of this development.\<close>

definition example_cnf :: config where
  "example_cnf = \<lparr>RecentSecondsEVL4 = 120, AdjacentSecondsEVL4 = 90, RecentSecondsSMS = 60,
     doSendSMS = True, RenewalDay = 15, SMS_Allowance = 100, CountSMS = 0, SMSLatestDate = UNKNOWN,
     RedAlertCellPhones = [''5550001''], YellowAlertCellPhones = [''5550002''],
     RebootAlertCellPhones = [''5550003''], InboundSMSCellPhones = [''5550004''],
     NotTheseTokens = [''Duplicate''], UrgentTokens = [''FIRE''], ImportantTokens = [''ARMED'']\<rparr>"

section \<open>Log scanner (scanEVL4log.py)\<close>

text \<open>A line of the log as the two regular expressions of \<^verbatim>\<open>getLogRecsWithCID\<close> see it:
  \<open>hit1\<close> finds no date, or a date that \<^verbatim>\<open>strptime\<close> rejects, or a date whose time
  stamp (whole seconds) is given; \<open>hit2\<close>/\<open>hit3\<close> find a ten-digit code or nothing.\<close>

datatype datehit = NoDate | BadDate | Date int

type_synonym logline = "datehit \<times> string option"

record slg_state =
  CIDs :: "(int \<times> string) list"
  CIDflags :: "(int \<times> string) list"

definition slg_MAX_HISTORY :: nat where
  "slg_MAX_HISTORY = 2"

definition slg_init :: slg_state where
  "slg_init = \<lparr>CIDs = [], CIDflags = []\<rparr>"

text \<open>The loop over the new lines. \<open>ts1\<close> is the local variable of that name: unbound
  (\<open>None\<close>) until a line carries a date, and kept from an earlier line when a line
  carries none. Any exception (a rejected date, the unbound \<open>ts1\<close>) is caught outside the
  loop, which ends it.\<close>

fun scan_lines :: "logline list \<Rightarrow> int option \<Rightarrow> slg_state \<Rightarrow> slg_state" where
  "scan_lines [] ts1 st = st"
| "scan_lines ((BadDate, hit3) # ls) ts1 st = st"
| "scan_lines ((d, hit3) # ls) ts1 st =
     (let ts1' = (case d of Date t \<Rightarrow> Some t | _ \<Rightarrow> ts1) in
      case hit3 of
        None \<Rightarrow> scan_lines ls ts1' st
      | Some thisCID \<Rightarrow>
         (case ts1' of
            None \<Rightarrow> st
          | Some t \<Rightarrow> scan_lines ls ts1'
                        (st\<lparr>CIDs := AList.update t thisCID (CIDs st),
                            CIDflags := AList.update t ''0'' (CIDflags st)\<rparr>)))"

definition slg_doPruning :: "slg_state \<Rightarrow> exn + slg_state" where
  "slg_doPruning st =
     (case pop_both (surplus_keys slg_MAX_HISTORY (CIDs st)) (CIDs st) (CIDflags st) of
        Inl e \<Rightarrow> Inl e
      | Inr (a, b) \<Rightarrow> Inr (st\<lparr>CIDs := a, CIDflags := b\<rparr>))"

fun candidates :: "(int \<times> string) list \<Rightarrow> (int \<times> string) list \<Rightarrow> exn + (int \<times> string) list" where
  "candidates [] flags = Inr []"
| "candidates ((key, cid) # rest) flags =
     (case getitem flags key of
        Inl e \<Rightarrow> Inl e
      | Inr f \<Rightarrow>
         (case candidates rest flags of
            Inl e \<Rightarrow> Inl e
          | Inr cs \<Rightarrow> Inr (if f = ''0'' then (key, cid) # cs else cs)))"

definition getLogRecsWithCID :: "logline list \<Rightarrow> slg_state \<Rightarrow> exn + (slg_state \<times> (int \<times> string) list)" where
  "getLogRecsWithCID lines st =
     (case slg_doPruning (scan_lines lines None st) of
        Inl e \<Rightarrow> Inl e
      | Inr st' \<Rightarrow>
         (case candidates (CIDs st') (CIDflags st') of
            Inl e \<Rightarrow> Inl e
          | Inr candidateCIDs \<Rightarrow> Inr (st', candidateCIDs)))"

text \<open>\<^verbatim>\<open>flagAsReportedCID\<close>: the flag is written first; the log call that follows reads
  \<^verbatim>\<open>CIDs[tskey]\<close> and raises KeyError for a key the window does not hold.\<close>

definition flagAsReportedCID :: "int \<Rightarrow> slg_state \<Rightarrow> exn + slg_state" where
  "flagAsReportedCID tskey st =
     (case getitem (CIDs st) tskey of
        Inl e \<Rightarrow> Inl e
      | Inr c \<Rightarrow> Inr (st\<lparr>CIDflags := AList.update tskey ''1'' (CIDflags st)\<rparr>))"

fun recent_loop :: "int \<Rightarrow> string \<Rightarrow> int \<Rightarrow> (int \<times> string) list \<Rightarrow> (int \<times> string) list
                      \<Rightarrow> exn + (int \<times> string) list" where
  "recent_loop RECENT_SECS flag nowts [] flags = Inr []"
| "recent_loop RECENT_SECS flag nowts ((key, cid) # rest) flags =
     (if \<bar>nowts - key\<bar> \<le> RECENT_SECS
      then (case getitem flags key of
              Inl e \<Rightarrow> Inl e
            | Inr f \<Rightarrow>
               (case recent_loop RECENT_SECS flag nowts rest flags of
                  Inl e \<Rightarrow> Inl e
                | Inr r \<Rightarrow> Inr (if f = flag then (key, cid) # r else r)))
      else recent_loop RECENT_SECS flag nowts rest flags)"

definition getRecentCIDs :: "int \<Rightarrow> bool \<Rightarrow> int \<Rightarrow> slg_state \<Rightarrow> exn + (int \<times> string) list" where
  "getRecentCIDs RECENT_SECS isReptd nowts st =
     recent_loop RECENT_SECS (if isReptd then ''1'' else ''0'') nowts (CIDs st) (CIDflags st)"

definition slg_inv :: "slg_state \<Rightarrow> bool" where
  "slg_inv st = (wf_dict (CIDs st) \<and> map fst (CIDflags st) = map fst (CIDs st))"

section \<open>Correlator (DPM.py)\<close>

text \<open>\<^verbatim>\<open>int(key2 / 1000000000)\<close>: the nanosecond time stamp divided in double precision,
  then truncated towards zero.\<close>

definition secs_of_ns :: "int \<Rightarrow> int" where
  "secs_of_ns k = py_int (truediv k 1000000000)"

text \<open>The test of the inner loop of \<^verbatim>\<open>scanSyslog\<close> for one protocol entry, and the inner
  loop itself, which runs over the protocol keys, most recent first, until the first hit.\<close>

definition adjacent_match :: "int \<Rightarrow> int \<Rightarrow> string \<Rightarrow> int \<times> string \<Rightarrow> bool" where
  "adjacent_match ADJACENT_SECS key1 cid e =
     (strip_chars ''CID='' (snd e) = cid \<and> \<bar>secs_of_ns (fst e) - key1\<bar> \<le> ADJACENT_SECS)"

definition isMatched :: "int \<Rightarrow> (int \<times> string) list \<Rightarrow> int \<Rightarrow> string \<Rightarrow> bool" where
  "isMatched ADJACENT_SECS msg03txt key1 cid =
     list_ex (adjacent_match ADJACENT_SECS key1 cid) (rev (sort_key fst msg03txt))"

fun match_loop :: "int \<Rightarrow> (int \<times> string) list \<Rightarrow> (int \<times> string) list \<Rightarrow> slg_state
                     \<Rightarrow> (int \<times> string) list \<Rightarrow> exn + (slg_state \<times> (int \<times> string) list)" where
  "match_loop ADJACENT_SECS msg03txt [] slg1 finalCheckLS = Inr (slg1, finalCheckLS)"
| "match_loop ADJACENT_SECS msg03txt ((key1, cid) # rest) slg1 finalCheckLS =
     (if isMatched ADJACENT_SECS msg03txt key1 cid
      then (case flagAsReportedCID key1 slg1 of
              Inl e \<Rightarrow> Inl e
            | Inr slg1' \<Rightarrow> match_loop ADJACENT_SECS msg03txt rest slg1' finalCheckLS)
      else match_loop ADJACENT_SECS msg03txt rest slg1 (AList.update key1 cid finalCheckLS))"

text \<open>\<^verbatim>\<open>scanSyslog\<close>. \<open>lines\<close> are the new lines of the log that \<^verbatim>\<open>getLogRecsWithCID\<close>
  reads, \<open>nowts\<close> the reading of the clock in whole seconds.\<close>

definition scanSyslog :: "config \<Rightarrow> logline list \<Rightarrow> int \<Rightarrow> (int \<times> string) list \<Rightarrow> slg_state
                            \<Rightarrow> exn + (slg_state \<times> string option)" where
  "scanSyslog cnf1 lines nowts msg03txt slg1 =
     (case getLogRecsWithCID lines slg1 of
        Inl e \<Rightarrow> Inl e
      | Inr (slg2, logscan) \<Rightarrow>
         (let checkLogScan = filter (\<lambda>(x, c). \<bar>nowts - x\<bar> \<le> RecentSecondsEVL4 cnf1) logscan in
          case match_loop (AdjacentSecondsEVL4 cnf1) msg03txt checkLogScan slg2 [] of
            Inl e \<Rightarrow> Inl e
          | Inr (slg3, finalCheckLS) \<Rightarrow>
             (case sort (map fst finalCheckLS) of
                [] \<Rightarrow> Inr (slg3, None)
              | k0 # ks \<Rightarrow>
                 (case flagAsReportedCID k0 slg3 of
                    Inl e \<Rightarrow> Inl e
                  | Inr slg4 \<Rightarrow>
                     (case getitem finalCheckLS k0 of
                        Inl e \<Rightarrow> Inl e
                      | Inr c \<Rightarrow> Inr (slg4, Some c))))))"

text \<open>\<^verbatim>\<open>checkSyslog\<close>: only the most recent protocol entry is compared; the loop runs over
  the recent log entries, most recent first, until the first hit.\<close>

fun check_loop :: "int \<Rightarrow> (int \<times> string) list \<Rightarrow> int list \<Rightarrow> bool \<Rightarrow> (int \<times> string) list
                     \<Rightarrow> slg_state \<Rightarrow> exn + (slg_state \<times> bool)" where
  "check_loop ADJACENT_SECS msg03txt keysTPI isReptd [] slg1 = Inr (slg1, False)"
| "check_loop ADJACENT_SECS msg03txt keysTPI isReptd ((key1, cid) # rest) slg1 =
     (case keysTPI of
        [] \<Rightarrow> check_loop ADJACENT_SECS msg03txt keysTPI isReptd rest slg1
      | k0 # ks \<Rightarrow>
         (case getitem msg03txt k0 of
            Inl e \<Rightarrow> Inl e
          | Inr txt \<Rightarrow>
             (if adjacent_match ADJACENT_SECS key1 cid (k0, txt)
              then (if \<not> isReptd
                    then (case flagAsReportedCID key1 slg1 of
                            Inl e \<Rightarrow> Inl e
                          | Inr slg1' \<Rightarrow> Inr (slg1', True))
                    else Inr (slg1, True))
              else check_loop ADJACENT_SECS msg03txt keysTPI isReptd rest slg1)))"

definition checkSyslog :: "config \<Rightarrow> int \<Rightarrow> (int \<times> string) list \<Rightarrow> bool \<Rightarrow> slg_state
                             \<Rightarrow> exn + (slg_state \<times> bool)" where
  "checkSyslog cnf1 nowts msg03txt isReptd slg1 =
     (case getRecentCIDs (RecentSecondsEVL4 cnf1) isReptd nowts slg1 of
        Inl e \<Rightarrow> Inl e
      | Inr recentCIDs \<Rightarrow>
         check_loop (AdjacentSecondsEVL4 cnf1) msg03txt (rev (sort (map fst msg03txt))) isReptd
           (rev (sort_key fst recentCIDs)) slg1)"

text \<open>The keys that the two loops of \<^verbatim>\<open>scanSyslog\<close> leave in \<^verbatim>\<open>finalCheckLS\<close>: the recent
  candidates for which the test of the inner loop fails at every protocol entry.\<close>

definition unmatched_recent :: "config \<Rightarrow> int \<Rightarrow> (int \<times> string) list \<Rightarrow> (int \<times> string) list \<Rightarrow> int list" where
  "unmatched_recent cnf1 nowts msg03txt logscan =
     map fst (filter (\<lambda>(key1, cid). \<bar>nowts - key1\<bar> \<le> RecentSecondsEVL4 cnf1 \<and>
                 \<not> (\<exists>e \<in> set msg03txt. adjacent_match (AdjacentSecondsEVL4 cnf1) key1 cid e)) logscan)"







text \<open>Passes over the log scanner in any order: a log scan, a direct call of
  \<^verbatim>\<open>flagAsReportedCID\<close>, \<^verbatim>\<open>scanSyslog\<close> and \<^verbatim>\<open>checkSyslog\<close>. A pass that raises ends the run.
  \<open>ingested\<close> lists the time stamps under which a pass stores a code read from the log.\<close>

datatype slg_op =
    GetLogRecs "logline list"
  | FlagAsReported int
  | ScanSyslog "logline list" int "(int \<times> string) list"
  | CheckSyslog int "(int \<times> string) list" bool

fun slg_step :: "config \<Rightarrow> slg_op \<Rightarrow> slg_state \<Rightarrow> exn + slg_state" where
  "slg_step cnf1 (GetLogRecs lines) st = map_sum id fst (getLogRecsWithCID lines st)"
| "slg_step cnf1 (FlagAsReported k) st = flagAsReportedCID k st"
| "slg_step cnf1 (ScanSyslog lines nowts msg03txt) st = map_sum id fst (scanSyslog cnf1 lines nowts msg03txt st)"
| "slg_step cnf1 (CheckSyslog nowts msg03txt isReptd) st = map_sum id fst (checkSyslog cnf1 nowts msg03txt isReptd st)"

fun slg_run :: "config \<Rightarrow> slg_op list \<Rightarrow> slg_state \<Rightarrow> exn + slg_state" where
  "slg_run cnf1 [] st = Inr st"
| "slg_run cnf1 (op # ops) st =
     (case slg_step cnf1 op st of Inl e \<Rightarrow> Inl e | Inr st' \<Rightarrow> slg_run cnf1 ops st')"

fun stored_keys :: "logline list \<Rightarrow> int option \<Rightarrow> int list" where
  "stored_keys [] ts1 = []"
| "stored_keys ((BadDate, hit3) # ls) ts1 = []"
| "stored_keys ((d, hit3) # ls) ts1 =
     (let ts1' = (case d of Date t \<Rightarrow> Some t | _ \<Rightarrow> ts1) in
      case hit3 of
        None \<Rightarrow> stored_keys ls ts1'
      | Some thisCID \<Rightarrow> (case ts1' of None \<Rightarrow> [] | Some t \<Rightarrow> t # stored_keys ls ts1'))"

fun ingested :: "slg_op \<Rightarrow> int list" where
  "ingested (GetLogRecs lines) = stored_keys lines None"
| "ingested (ScanSyslog lines nowts msg03txt) = stored_keys lines None"
| "ingested op = []"

text \<open>Every flag of the window is \<^verbatim>\<open>'0'\<close> or \<^verbatim>\<open>'1'\<close>.\<close>

definition flags_inv :: "slg_state \<Rightarrow> bool" where
  "flags_inv st =
     (\<forall>k. map_of (CIDflags st) k = None \<or> map_of (CIDflags st) k = Some ''0''
          \<or> map_of (CIDflags st) k = Some ''1'')"

section \<open>Modem engine (mymodem.py)\<close>

text \<open>The history of sent messages is two dictionaries under the same nanosecond keys.
  \<open>attempts\<close> records every \<^verbatim>\<open>AT+CMGS\<close> exchange that \<^verbatim>\<open>sendSMS\<close> starts on the serial
  line, as (recipient, message); it stands for the serial port, which the class only
  writes to. \<open>RECENT_SECS\<close> is read from the configuration by the constructor.\<close>

record mdm_state =
  alert :: "(int \<times> string) list"
  phone :: "(int \<times> string) list"
  attempts :: "(string \<times> string) list"
  RECENT_SECS :: int

definition mdm_MAX_HISTORY :: nat where
  "mdm_MAX_HISTORY = 16"

definition mdm_init :: "config \<Rightarrow> mdm_state" where
  "mdm_init cnf1 = \<lparr>alert = [], phone = [], attempts = [], RECENT_SECS = RecentSecondsSMS cnf1\<rparr>"

text \<open>What the serial exchange of one \<^verbatim>\<open>sendSMS\<close> call does: the modem's reply ends in
  \<^verbatim>\<open>OK\<close>, or it does not, or a write or read raises. The two readings of
  \<^verbatim>\<open>time.time_ns()\<close> are inputs too: \<open>clock_check k\<close> is the reading that \<^verbatim>\<open>isDuplicate\<close>
  takes when its loop compares the entry of key \<open>k\<close>, and \<open>clock_save\<close> the reading in
  \<^verbatim>\<open>saveHistory\<close>.\<close>

datatype modem_reply = ReplyOK | ReplyNotOK | SerialException

record send_env =
  clock_check :: "int \<Rightarrow> int"
  clock_save :: int
  reply :: modem_reply

definition saveHistory :: "int \<Rightarrow> string \<Rightarrow> string \<Rightarrow> mdm_state \<Rightarrow> mdm_state" where
  "saveHistory tstamp message recipient st =
     st\<lparr>alert := AList.update tstamp message (alert st),
        phone := AList.update tstamp recipient (phone st)\<rparr>"

text \<open>The age test \<^verbatim>\<open>abs((ts1 - k) / 1000000000) <= self.RECENT_SECS\<close> divides in double
  precision and compares the float with the integer exactly.\<close>

fun isDuplicate_loop :: "(int \<Rightarrow> int) \<Rightarrow> string \<Rightarrow> string \<Rightarrow> int list \<Rightarrow> mdm_state \<Rightarrow> exn + bool" where
  "isDuplicate_loop clock message recipient [] st = Inr False"
| "isDuplicate_loop clock message recipient (k # keys) st =
     (case getitem (alert st) k of
        Inl e \<Rightarrow> Inl e
      | Inr a \<Rightarrow>
         (if a = message
          then (case getitem (phone st) k of
                  Inl e \<Rightarrow> Inl e
                | Inr p \<Rightarrow>
                   (if p = recipient
                       \<and> \<bar>truediv (clock k - k) 1000000000\<bar> \<le> of_int (RECENT_SECS st)
                    then Inr True
                    else isDuplicate_loop clock message recipient keys st))
          else isDuplicate_loop clock message recipient keys st))"

definition isDuplicate :: "(int \<Rightarrow> int) \<Rightarrow> string \<Rightarrow> string \<Rightarrow> mdm_state \<Rightarrow> exn + bool" where
  "isDuplicate clock message recipient st =
     isDuplicate_loop clock message recipient (rev (sort (map fst (alert st)))) st"

text \<open>\<^verbatim>\<open>sendSMS\<close>. \<open>attempts\<close> records each transmission that the method starts (the
  \<^verbatim>\<open>AT+CMGS\<close> exchange). After a failed exchange the method calls \<^verbatim>\<open>doReconnect\<close>, which
  reopens the serial port and sends nothing, and returns 16.\<close>

definition sendSMS :: "config \<Rightarrow> send_env \<Rightarrow> string \<Rightarrow> string \<Rightarrow> mdm_state \<Rightarrow> exn + (nat \<times> mdm_state)" where
  "sendSMS cnf1 env message recipient st =
     (case isDuplicate (clock_check env) message recipient st of
        Inl e \<Rightarrow> Inl e
      | Inr dup \<Rightarrow>
         if dup then Inr (8, saveHistory (clock_save env) message recipient st)
         else if doSendSMS cnf1
         then (let st' = st\<lparr>attempts := attempts st @ [(recipient, message)]\<rparr> in
               case reply env of
                 ReplyOK \<Rightarrow> Inr (0, saveHistory (clock_save env) message recipient st')
               | _ \<Rightarrow> Inr (16, st'))
         else Inr (4, st))"

definition mdm_doPruning :: "mdm_state \<Rightarrow> exn + mdm_state" where
  "mdm_doPruning st =
     (case pop_both (surplus_keys mdm_MAX_HISTORY (alert st)) (alert st) (phone st) of
        Inl e \<Rightarrow> Inl e
      | Inr (a, p) \<Rightarrow> Inr (st\<lparr>alert := a, phone := p\<rparr>))"

definition mdm_inv :: "mdm_state \<Rightarrow> bool" where
  "mdm_inv st = (wf_dict (alert st) \<and> map fst (phone st) = map fst (alert st))"

text \<open>Passes over the modem in any order: a call of \<^verbatim>\<open>sendSMS\<close> or of \<^verbatim>\<open>doPruning\<close>. The
  run collects the return codes of the \<^verbatim>\<open>sendSMS\<close> calls.\<close>

datatype mdm_op = SendSMS send_env string string | DoPruning

fun mdm_run :: "config \<Rightarrow> mdm_op list \<Rightarrow> mdm_state \<Rightarrow> exn + (nat list \<times> mdm_state)" where
  "mdm_run cnf1 [] st = Inr ([], st)"
| "mdm_run cnf1 (SendSMS env message recipient # ops) st =
     (case sendSMS cnf1 env message recipient st of
        Inl e \<Rightarrow> Inl e
      | Inr (rc, st') \<Rightarrow>
         (case mdm_run cnf1 ops st' of Inl e \<Rightarrow> Inl e | Inr (rcs, st'') \<Rightarrow> Inr (rc # rcs, st'')))"
| "mdm_run cnf1 (DoPruning # ops) st =
     (case mdm_doPruning st of Inl e \<Rightarrow> Inl e | Inr st' \<Rightarrow> mdm_run cnf1 ops st')"

section \<open>Budget gate (DPM.py)\<close>

subsection \<open>Calendar\<close>

text \<open>Dates as \<^verbatim>\<open>datetime\<close> has them: the proleptic Gregorian calendar, a date numbered
  by its ordinal. \<open>strptime\<close> stands for \<^verbatim>\<open>datetime.strptime\<close> on the text the code builds
  from a year, a month and a day: it raises ValueError unless the fields form a date of a
  four-digit year.\<close>

definition leap_year :: "int \<Rightarrow> bool" where
  "leap_year y = (y mod 4 = 0 \<and> (y mod 100 \<noteq> 0 \<or> y mod 400 = 0))"

definition days_in_month :: "int \<Rightarrow> int \<Rightarrow> int" where
  "days_in_month y m =
     (if m = 2 then (if leap_year y then 29 else 28)
      else if m = 4 \<or> m = 6 \<or> m = 9 \<or> m = 11 then 30 else 31)"

definition days_before_year :: "int \<Rightarrow> int" where
  "days_before_year y = (y - 1) * 365 + (y - 1) div 4 - (y - 1) div 100 + (y - 1) div 400"

definition days_before_month :: "int \<Rightarrow> int \<Rightarrow> int" where
  "days_before_month y m = sum_list (map (days_in_month y) [1 ..< nat m])"

definition ordinal :: "int \<Rightarrow> int \<Rightarrow> int \<Rightarrow> int" where
  "ordinal y m d = days_before_year y + days_before_month y m + d"

definition strptime :: "int \<Rightarrow> int \<Rightarrow> int \<Rightarrow> exn + int" where
  "strptime y m d =
     (if 1000 \<le> y \<and> y \<le> 9999 \<and> 1 \<le> m \<and> m \<le> 12 \<and> 1 \<le> d \<and> d \<le> days_in_month y m
      then Inr (ordinal y m d) else Inl ValueError)"

text \<open>The stored latest date as seconds since the start of the calendar; \<^verbatim>\<open>UNKNOWN\<close> is
  replaced by the renewal date before parsing.\<close>

definition parse_latest :: "int \<Rightarrow> latest_date \<Rightarrow> exn + int" where
  "parse_latest renewal l =
     (case l of
        UNKNOWN \<Rightarrow> Inr (renewal * 86400)
      | SentAt y m d s \<Rightarrow>
         (case strptime y m d of
            Inl e \<Rightarrow> Inl e
          | Inr n \<Rightarrow> if 0 \<le> s \<and> s < 86400 then Inr (n * 86400 + s) else Inl ValueError))"

subsection \<open>Metrics\<close>

definition resetSMSmetrics :: "config \<Rightarrow> config" where
  "resetSMSmetrics cnf1 = cnf1\<lparr>CountSMS := 0, SMSLatestDate := UNKNOWN\<rparr>"

definition updateSMSmetrics :: "int \<Rightarrow> latest_date \<Rightarrow> config \<Rightarrow> config" where
  "updateSMSmetrics sent sentdate cnf1 =
     cnf1\<lparr>CountSMS := CountSMS cnf1 + sent, SMSLatestDate := sentdate\<rparr>"

subsection \<open>optimizeSMS\<close>

text \<open>\<open>today\<close> is the date of \<^verbatim>\<open>datetime.now()\<close> as (year, month, day). First the renewal
  check: \<^verbatim>\<open>(ts1 - ts2).days\<close> is the floor of the difference in days.\<close>

definition renewal_check :: "int \<times> int \<times> int \<Rightarrow> config \<Rightarrow> exn + config" where
  "renewal_check today cnf1 =
     (case today of (i_year, i_month, i_days) \<Rightarrow>
        if i_days \<ge> RenewalDay cnf1
        then (case strptime i_year i_month (RenewalDay cnf1) of
                Inl e \<Rightarrow> Inl e
              | Inr renewal \<Rightarrow>
                 (case parse_latest renewal (SMSLatestDate cnf1) of
                    Inl e \<Rightarrow> Inl e
                  | Inr ts2 \<Rightarrow>
                     (let diff = (renewal * 86400 - ts2) div 86400
                      in if diff \<ge> 0 then Inr (resetSMSmetrics cnf1) else Inr cnf1)))
        else Inr cnf1)"

text \<open>The days until the next renewal; zero days count as thirty.\<close>

definition days_to_go :: "int \<times> int \<times> int \<Rightarrow> config \<Rightarrow> exn + int" where
  "days_to_go today cnf1 =
     (case today of (i_year, i_month, i_days) \<Rightarrow>
        (let i_renewDay = RenewalDay cnf1;
             dt2 = (if i_days > i_renewDay
                    then (if i_month = 12 then (i_year + 1, 1, i_renewDay)
                          else (i_year, i_month + 1, i_renewDay))
                    else (i_year, i_month, i_renewDay))
         in case strptime i_year i_month i_days of
              Inl e \<Rightarrow> Inl e
            | Inr ts1 \<Rightarrow>
               (case dt2 of (y2, m2, d2) \<Rightarrow>
                  (case strptime y2 m2 d2 of
                     Inl e \<Rightarrow> Inl e
                   | Inr ts2 \<Rightarrow>
                      (let daysToGo = \<bar>ts2 - ts1\<bar> in Inr (if daysToGo = 0 then 30 else daysToGo))))))"

text \<open>The mean roster size, the risk and the usage test, each float operation rounded:
  \<^verbatim>\<open>avgphonect = (...) / 4\<close>, \<^verbatim>\<open>dividend = avgphonect * daysToGo\<close>,
  \<^verbatim>\<open>riskpc = round((dividend / divisor) * 100)\<close> and
  \<^verbatim>\<open>(sentSMS + avgphonect) <= SMS_allowance\<close>.\<close>

definition avgphonect :: "config \<Rightarrow> real" where
  "avgphonect cnf1 =
     truediv (int (length (RedAlertCellPhones cnf1) + length (YellowAlertCellPhones cnf1)
                   + length (RebootAlertCellPhones cnf1) + length (InboundSMSCellPhones cnf1))) 4"

definition riskpc :: "config \<Rightarrow> int \<Rightarrow> int" where
  "riskpc cnf1 daysToGo =
     (let divisor = (if SMS_Allowance cnf1 - CountSMS cnf1 = 0 then 1
                     else SMS_Allowance cnf1 - CountSMS cnf1);
          dividend = fl (avgphonect cnf1 * float_of_int daysToGo)
      in py_round (fl (fl (dividend / float_of_int divisor) * 100)))"

definition usage_ok :: "config \<Rightarrow> bool" where
  "usage_ok cnf1 =
     (fl (float_of_int (CountSMS cnf1) + avgphonect cnf1) \<le> of_int (SMS_Allowance cnf1))"

text \<open>The gate policy in the words of the specification, for comparison with the code: the
  mean roster size and the usage bound in exact arithmetic, and the decision as a function of
  the risk and of the usage bound.\<close>

definition phones_total :: "config \<Rightarrow> nat" where
  "phones_total cnf1 = length (RedAlertCellPhones cnf1) + length (YellowAlertCellPhones cnf1)
       + length (RebootAlertCellPhones cnf1) + length (InboundSMSCellPhones cnf1)"

definition spec_avgPhones :: "config \<Rightarrow> real" where
  "spec_avgPhones cnf1 = of_nat (phones_total cnf1) / 4"



text \<open>\<^verbatim>\<open>optimizeSMS\<close> returns the list \<^verbatim>\<open>[redAlert, yellowAlert, rebootAlert]\<close>, here a
  triple, and leaves the metrics reset or not in the configuration.\<close>

definition optimizeSMS :: "int \<times> int \<times> int \<Rightarrow> config \<Rightarrow> exn + (config \<times> (bool \<times> bool \<times> bool))" where
  "optimizeSMS today cnf0 =
     (case renewal_check today cnf0 of
        Inl e \<Rightarrow> Inl e
      | Inr cnf1 \<Rightarrow>
         (case days_to_go today cnf1 of
            Inl e \<Rightarrow> Inl e
          | Inr daysToGo \<Rightarrow>
             (if avgphonect cnf1 = 0 then Inr (cnf1, (False, False, False))
              else if riskpc cnf1 daysToGo < 100 \<and> usage_ok cnf1
                   then Inr (cnf1, (True, True, True))
              else if riskpc cnf1 daysToGo \<ge> 100 \<and> usage_ok cnf1
                   then Inr (cnf1, (True, False, False))
              else Inr (cnf1, (False, False, False)))))"

section \<open>Sending alerts (DPM.py)\<close>

text \<open>The body of the loop over the phones in \<^verbatim>\<open>callCellPhones\<close>. \<open>first_try\<close> and
  \<open>last_try\<close> are what the serial line and the clock do in the first call of \<^verbatim>\<open>sendSMS\<close> and
  in the second, which is made after return code 16 only; \<open>sentdate\<close> is the date that
  \<^verbatim>\<open>updateMetrics\<close> stores.\<close>

record phone_env =
  first_try :: send_env
  last_try :: send_env
  sentdate :: latest_date

definition call_phone :: "phone_env \<Rightarrow> string \<Rightarrow> string \<Rightarrow> config \<times> mdm_state
                            \<Rightarrow> exn + (config \<times> mdm_state)" where
  "call_phone env fullMsg ph s =
     (case s of (cnf1, mdm1) \<Rightarrow>
        (case sendSMS cnf1 (first_try env) fullMsg ph mdm1 of
           Inl e \<Rightarrow> Inl e
         | Inr (rc, mdm2) \<Rightarrow>
            if rc = 0 then Inr (updateSMSmetrics 1 (sentdate env) cnf1, mdm2)
            else if rc = 4 then Inr (cnf1, mdm2)
            else if rc = 8 then Inr (cnf1, mdm2)
            else if rc = 16
            then (case sendSMS cnf1 (last_try env) fullMsg ph mdm2 of
                    Inl e \<Rightarrow> Inl e
                  | Inr (rc2, mdm3) \<Rightarrow>
                     if rc2 = 0 then Inr (updateSMSmetrics 1 (sentdate env) cnf1, mdm3)
                     else Inr (cnf1, mdm3))
            else Inr (cnf1, mdm2)))"

fun call_phones :: "phone_env list \<Rightarrow> string \<Rightarrow> string list \<Rightarrow> config \<times> mdm_state
                      \<Rightarrow> exn + (config \<times> mdm_state)" where
  "call_phones envs fullMsg [] s = Inr s"
| "call_phones envs fullMsg (ph # phones) s =
     (case envs of
        [] \<Rightarrow> Inl TransportError
      | env # envs' \<Rightarrow>
         (case call_phone env fullMsg ph s of
            Inl e \<Rightarrow> Inl e
          | Inr s' \<Rightarrow> call_phones envs' fullMsg phones s'))"

text \<open>\<^verbatim>\<open>callCellPhones\<close>: the gate, the choice of the roster, the loop, the pruning. \<open>envs\<close>
  gives the environment of each iteration of the loop, one per phone.\<close>

definition callCellPhones ::
  "int \<times> int \<times> int \<Rightarrow> phone_env list \<Rightarrow> string \<Rightarrow> bool \<Rightarrow> bool \<Rightarrow> bool
     \<Rightarrow> config \<times> mdm_state \<Rightarrow> exn + (config \<times> mdm_state)" where
  "callCellPhones today envs fullMsg redAlert yellowAlert rebootAlert s =
     (case s of (cnf0, mdm1) \<Rightarrow>
        (case optimizeSMS today cnf0 of
           Inl e \<Rightarrow> Inl e
         | Inr (cnf1, (r0, r1, r2)) \<Rightarrow>
            if (r0 \<and> redAlert) \<or> (r1 \<and> yellowAlert) \<or> (r2 \<and> rebootAlert)
            then (let phones = (if redAlert then RedAlertCellPhones cnf1
                                else if yellowAlert then YellowAlertCellPhones cnf1
                                else if rebootAlert then RebootAlertCellPhones cnf1
                                else [])
                  in case call_phones envs fullMsg phones (cnf1, mdm1) of
                       Inl e \<Rightarrow> Inl e
                     | Inr (cnf2, mdm2) \<Rightarrow>
                        (case mdm_doPruning mdm2 of
                           Inl e \<Rightarrow> Inl e
                         | Inr mdm3 \<Rightarrow> Inr (cnf2, mdm3)))
            else Inr (cnf1, mdm1)))"


section \<open>Example states\<close>

text \<open>A protocol history that holds two messages of type \<^verbatim>\<open>%03\<close>, a log window that holds two
  codes, and an SMS history of 17 entries, one more than \<^verbatim>\<open>doPruning\<close> keeps.\<close>

definition example_tel :: tel_state where
  "example_tel =
     \<lparr>recentMsgs = (\<lambda>h. [])
        (Msg03raw := [(10, ''%03,1131010030$''), (20, ''%03,3131010030$'')],
         Msg03txt := [(10, ''CID=1131010030''), (20, ''CID=3131010030'')],
         Msgflag03 := [(10, ''1''), (20, ''1'')])\<rparr>"

definition example_slg :: slg_state where
  "example_slg = \<lparr>CIDs = [(100, ''1131010030''), (200, ''3131010030'')],
                   CIDflags = [(100, ''1''), (200, ''0'')]\<rparr>"

definition example_mdm :: mdm_state where
  "example_mdm =
     \<lparr>alert = map (\<lambda>k. (k, ''FIRE zone 004'')) [17, 1, 2, 3, 4, 5, 6, 7, 8, 9, 10, 11, 12, 13, 14, 15, 16],
      phone = map (\<lambda>k. (k, ''5550001'')) [17, 1, 2, 3, 4, 5, 6, 7, 8, 9, 10, 11, 12, 13, 14, 15, 16],
      attempts = [], RECENT_SECS = 60\<rparr>"
section \<open>Floating point\<close>

lemma py_round_of_int: "py_round (of_int k) = k"
  by (simp add: py_round_def)

lemma py_round_bounds: "\<lfloor>x\<rfloor> \<le> py_round x" "py_round x \<le> \<lfloor>x\<rfloor> + 1"
  by (simp_all add: py_round_def Let_def)

lemma py_round_mono:
  assumes "x \<le> y"
  shows "py_round x \<le> py_round y"
proof (cases "\<lfloor>x\<rfloor> < \<lfloor>y\<rfloor>")
  case True
  then have "py_round x \<le> \<lfloor>y\<rfloor>" using py_round_bounds(2) [of x] by linarith
  then show ?thesis using py_round_bounds(1) [of y] by linarith
next
  case False
  then have eq: "\<lfloor>x\<rfloor> = \<lfloor>y\<rfloor>" using assms floor_mono [of x y] by linarith
  have "x - of_int \<lfloor>y\<rfloor> \<le> y - of_int \<lfloor>y\<rfloor>" using assms by simp
  then show ?thesis
    by (auto simp: py_round_def Let_def eq)
qed


lemma round53_exponent:
  assumes "0 < x"
  obtains e where "2 powr of_int e \<le> x" and "x < 2 powr of_int (e + 1)"
    and "round53 x = of_int (py_round (x / 2 powr of_int (e - 52))) * 2 powr of_int (e - 52)"
proof -
  have "2 powr of_int \<lfloor>log 2 x\<rfloor> \<le> x \<and> x < 2 powr (of_int \<lfloor>log 2 x\<rfloor> + 1)"
    using assms floor_log_eq_powr_iff [of x 2 "\<lfloor>log 2 x\<rfloor>"] by simp
  then show thesis
    using that [of "\<lfloor>log 2 x\<rfloor>"] by (simp add: round53_def Let_def add.commute)
qed

lemma powr_int_as_power:
  "0 \<le> j \<Longrightarrow> (2::real) powr of_int j = of_int (2 ^ nat j)"
  by (simp add: powr_realpow [symmetric])

lemma pw_less_iff: "(2::real) powr of_int a < 2 powr of_int b \<longleftrightarrow> a < b"
  by simp

lemma pw_le_iff: "(2::real) powr of_int a \<le> 2 powr of_int b \<longleftrightarrow> a \<le> b"
  by simp

lemma pw53: "(2::real) powr of_int 53 = of_int (2 ^ 53)"
  using powr_int_as_power [of 53] by simp

lemma pw52: "(2::real) powr of_int 52 = of_int (2 ^ 52)"
  using powr_int_as_power [of 52] by simp

text \<open>rounding does not move past an integer below 2^53\<close>

lemma round53_le_int:
  assumes "0 < x" and "x \<le> of_int n" and "n < 2 ^ 53"
  shows "round53 x \<le> of_int n"
proof -
  from assms(1) obtain e where lo: "2 powr of_int e \<le> x" and hi: "x < 2 powr of_int (e + 1)"
    and r: "round53 x = of_int (py_round (x / 2 powr of_int (e - 52))) * 2 powr of_int (e - 52)"
    by (rule round53_exponent)
  have "(2::real) powr of_int e < 2 powr of_int 53"
  proof -
    have "(2::real) powr of_int e \<le> of_int n" using lo assms(2) by linarith
    also have "\<dots> < of_int (2 ^ 53)" using assms(3) by (simp only: of_int_less_iff)
    also have "\<dots> = (2::real) powr of_int 53" by (simp only: pw53)
    finally show ?thesis .
  qed
  then have "e < 53" by (simp only: pw_less_iff)
  then have e: "e \<le> 52" by simp
  let ?u = "(2::real) powr of_int (e - 52)"
  have u: "0 < ?u" by simp
  have inv: "1 / ?u = of_int (2 ^ nat (52 - e))"
  proof -
    have "1 / ?u = 2 powr of_int (52 - e)"
      by (simp add: powr_minus [symmetric] divide_inverse)
    also have "\<dots> = of_int (2 ^ nat (52 - e))"
      using e by (intro powr_int_as_power) simp
    finally show ?thesis .
  qed
  have "x / ?u \<le> of_int n / ?u" using assms(2) u by (simp add: divide_right_mono)
  also have "of_int n / ?u = of_int (n * 2 ^ nat (52 - e))"
    using inv by (simp add: divide_inverse)
  finally have "py_round (x / ?u) \<le> n * 2 ^ nat (52 - e)"
    using py_round_mono py_round_of_int by metis
  then have "of_int (py_round (x / ?u)) \<le> (of_int (n * 2 ^ nat (52 - e)) :: real)"
    by (simp only: of_int_le_iff)
  also have "\<dots> = of_int n / ?u" using inv by (simp add: divide_inverse)
  finally have "of_int (py_round (x / ?u)) * ?u \<le> of_int n"
    using u by (simp add: pos_le_divide_eq)
  with r show ?thesis by simp
qed

lemma round53_ge_int:
  assumes "0 < x" and "of_int n \<le> x" and "n < 2 ^ 53"
  shows "of_int n \<le> round53 x"
proof -
  from assms(1) obtain e where lo: "2 powr of_int e \<le> x" and hi: "x < 2 powr of_int (e + 1)"
    and r: "round53 x = of_int (py_round (x / 2 powr of_int (e - 52))) * 2 powr of_int (e - 52)"
    by (rule round53_exponent)
  let ?u = "(2::real) powr of_int (e - 52)"
  have u: "0 < ?u" by simp
  show ?thesis
  proof (cases "e \<le> 52")
    case True
    have inv: "1 / ?u = of_int (2 ^ nat (52 - e))"
    proof -
      have "1 / ?u = 2 powr of_int (52 - e)"
        by (simp add: powr_minus [symmetric] divide_inverse)
      also have "\<dots> = of_int (2 ^ nat (52 - e))"
        using True by (intro powr_int_as_power) simp
      finally show ?thesis .
    qed
    have "of_int n / ?u \<le> x / ?u" using assms(2) u by (simp add: divide_right_mono)
    moreover have "of_int n / ?u = of_int (n * 2 ^ nat (52 - e))"
      using inv by (simp add: divide_inverse)
    ultimately have "n * 2 ^ nat (52 - e) \<le> py_round (x / ?u)"
      using py_round_mono py_round_of_int by metis
    then have "(of_int (n * 2 ^ nat (52 - e)) :: real) \<le> of_int (py_round (x / ?u))"
      by (simp only: of_int_le_iff)
    moreover have "of_int (n * 2 ^ nat (52 - e)) = of_int n / ?u"
      using inv by (simp add: divide_inverse)
    ultimately have "of_int n \<le> of_int (py_round (x / ?u)) * ?u"
      using u by (simp add: pos_divide_le_eq)
    with r show ?thesis by simp
  next
    case False
    then have e: "53 \<le> e" by simp
    have "x / ?u \<ge> 2 powr of_int e / ?u" using lo u by (simp add: divide_right_mono)
    moreover have "2 powr of_int e / ?u = (2::real) powr of_int 52"
      by (simp only: powr_diff [symmetric] of_int_diff [symmetric]) simp
    ultimately have "of_int (2 ^ 52) \<le> x / ?u" by (simp only: pw52)
    then have "2 ^ 52 \<le> py_round (x / ?u)"
      using py_round_mono py_round_of_int by metis
    then have "(of_int (2 ^ 52) :: real) \<le> of_int (py_round (x / ?u))"
      by (simp only: of_int_le_iff)
    then have "(2::real) powr of_int 52 * ?u \<le> of_int (py_round (x / ?u)) * ?u"
      using u by (simp only: pw52 mult_le_cancel_right_pos)
    moreover have "(2::real) powr of_int 52 * ?u = 2 powr of_int e"
      by (simp only: powr_add [symmetric] of_int_add [symmetric]) simp
    moreover have "(2::real) powr of_int 53 \<le> 2 powr of_int e"
      using e by (simp only: pw_le_iff)
    moreover have "of_int n < (2::real) powr of_int 53"
      using assms(3) by (simp only: pw53 of_int_less_iff)
    ultimately show ?thesis using r by linarith
  qed
qed

lemma round53_nonneg: "0 < x \<Longrightarrow> 0 \<le> round53 x"
  using round53_ge_int [of x 0] by simp

lemma fl_le_int:
  assumes "x \<le> of_int n" and "\<bar>n\<bar> < 2 ^ 53"
  shows "fl x \<le> of_int n"
proof -
  consider "x = 0" | "0 < x" | "x < 0" by linarith
  then show ?thesis
  proof cases
    case 1
    with assms show ?thesis by (simp add: fl_def)
  next
    case 2
    with assms round53_le_int [of x n] show ?thesis by (simp add: fl_def)
  next
    case 3
    have "of_int (- n) \<le> - x" using assms(1) by simp
    moreover have "- n < 2 ^ 53" using assms(2) by linarith
    ultimately have "of_int (- n) \<le> round53 (- x)"
      using 3 by (intro round53_ge_int) simp_all
    with 3 show ?thesis by (simp add: fl_def)
  qed
qed

lemma fl_minus: "fl (- x) = - fl x"
  by (simp add: fl_def)

lemma fl_ge_int:
  assumes "of_int n \<le> x" and "\<bar>n\<bar> < 2 ^ 53"
  shows "of_int n \<le> fl x"
proof -
  have "fl (- x) \<le> of_int (- n)"
    using assms by (intro fl_le_int) simp_all
  then show ?thesis by (simp add: fl_minus)
qed

lemma fl_of_int: "\<bar>n\<bar> < 2 ^ 53 \<Longrightarrow> fl (of_int n) = of_int n"
  using fl_le_int [of "of_int n" n] fl_ge_int [of n "of_int n"] by simp


lemma round53_scale:
  assumes "0 < x"
  shows "round53 (x * 2 powr of_int j) = round53 x * 2 powr of_int j"
proof -
  have "log 2 (x * 2 powr of_int j) = log 2 x + of_int j"
    using assms by (simp add: log_mult)
  then have e: "\<lfloor>log 2 (x * 2 powr of_int j)\<rfloor> = \<lfloor>log 2 x\<rfloor> + j"
    by simp
  have u: "(2::real) powr of_int (\<lfloor>log 2 x\<rfloor> + j - 52)
             = 2 powr of_int (\<lfloor>log 2 x\<rfloor> - 52) * 2 powr of_int j"
    by (simp add: powr_add [symmetric] algebra_simps)
  show ?thesis
    unfolding round53_def Let_def e u by simp
qed

lemma fl_scale: "fl (x * 2 powr of_int j) = fl x * 2 powr of_int j"
proof -
  consider "x = 0" | "0 < x" | "x < 0" by linarith
  then show ?thesis
  proof cases
    case 1
    then show ?thesis by (simp add: fl_def)
  next
    case 2
    then have "0 < x * 2 powr of_int j" by simp
    with 2 show ?thesis by (simp add: fl_def round53_scale)
  next
    case 3
    then have "x * 2 powr of_int j < 0" by (simp add: mult_neg_pos)
    moreover have "- (x * 2 powr of_int j) = (- x) * 2 powr of_int j" by simp
    ultimately show ?thesis using 3 round53_scale [of "- x" j] by (simp add: fl_def)
  qed
qed

lemma fl_dyadic:
  "\<bar>k\<bar> < 2 ^ 53 \<Longrightarrow> fl (of_int k * 2 powr of_int j) = of_int k * 2 powr of_int j"
  by (simp add: fl_scale fl_of_int)




section \<open>Dictionaries and pruning\<close>

lemma keys_fold_delete:
  "map fst (fold AList.delete ks d) = filter (\<lambda>k. k \<notin> set ks) (map fst d)"
proof (induction ks arbitrary: d)
  case Nil
  then show ?case by simp
next
  case (Cons k ks)
  have "filter (\<lambda>x. x \<notin> set ks) (removeAll k (map fst d)) = filter (\<lambda>x. x \<notin> set (k # ks)) (map fst d)"
    by (induction d) auto
  with Cons show ?case by (simp add: delete_keys)
qed

lemma wf_fold_delete: "wf_dict d \<Longrightarrow> wf_dict (fold AList.delete ks d)"
  by (simp add: wf_dict_def keys_fold_delete)

lemma wf_update: "wf_dict d \<Longrightarrow> wf_dict (AList.update k v d)"
  by (simp add: wf_dict_def distinct_update)

lemma surplus_keys_props:
  assumes "wf_dict d"
  shows "distinct (surplus_keys n d)" and "set (surplus_keys n d) \<subseteq> fst ` set d"
    and "length (surplus_keys n d) = length d - n"
proof -
  show "distinct (surplus_keys n d)"
    using assms by (simp add: surplus_keys_def wf_dict_def Let_def)
  show "set (surplus_keys n d) \<subseteq> fst ` set d"
    using set_take_subset [of _ "sort (map fst d)"] by (auto simp: surplus_keys_def Let_def)
  show "length (surplus_keys n d) = length d - n"
    by (simp add: surplus_keys_def Let_def)
qed

lemma length_pruned:
  assumes "wf_dict d"
  shows "length (fold AList.delete (surplus_keys n d) d) = min (length d) n"
proof -
  let ?ks = "surplus_keys n d"
  have "length (fold AList.delete ?ks d) = length (map fst (fold AList.delete ?ks d))"
    by simp
  also have "\<dots> = length (filter (\<lambda>k. k \<notin> set ?ks) (map fst d))"
    by (simp only: keys_fold_delete)
  also have "\<dots> = card ({k. k \<notin> set ?ks} \<inter> set (map fst d))"
    using assms unfolding wf_dict_def by (rule distinct_length_filter)
  also have "{k. k \<notin> set ?ks} \<inter> set (map fst d) = set (map fst d) - set ?ks"
    by auto
  also have "card (set (map fst d) - set ?ks) = card (set (map fst d)) - card (set ?ks)"
    using surplus_keys_props(2) [OF assms, of n] by (intro card_Diff_subset) auto
  also have "card (set (map fst d)) = length d"
    using distinct_card [of "map fst d"] assms by (simp add: wf_dict_def)
  also have "card (set ?ks) = length d - n"
    using surplus_keys_props(1,3) [OF assms, of n] by (simp add: distinct_card)
  finally show ?thesis by simp
qed

lemma tel_inv_setitem: "tel_inv st \<Longrightarrow> tel_inv (setitem h ts v st)"
  by (simp add: tel_inv_def setitem_def wf_update)

lemma tel_inv_store: "tel_inv st \<Longrightarrow> tel_inv (store_message r t f dec ts msg st)"
  by (simp add: store_message_def tel_inv_setitem split: sum.splits)

lemma tel_inv_pruneAll: "tel_inv st \<Longrightarrow> tel_inv (pruneAll st)"
  by (simp add: tel_inv_def pruneAll_def prune_history_def wf_fold_delete)

lemma length_pruneAll: "tel_inv st \<Longrightarrow> length (recentMsgs (pruneAll st) h) \<le> tel_MAX_HISTORY"
  by (simp add: tel_inv_def pruneAll_def prune_history_def length_pruned)

lemma getNextMessage_inv: "tel_inv st \<Longrightarrow> tel_inv (getNextMessage rx now st)"
  unfolding getNextMessage_def
  by (intro tel_inv_pruneAll) (simp add: tel_inv_setitem tel_inv_store split: sum.splits)

lemma getNextMessage_length:
  "tel_inv st \<Longrightarrow> length (recentMsgs (getNextMessage rx now st) h) \<le> tel_MAX_HISTORY"
  unfolding getNextMessage_def
  by (intro length_pruneAll) (simp add: tel_inv_setitem tel_inv_store split: sum.splits)

lemma pop_both_ok:
  "map fst b = map fst a \<Longrightarrow> distinct ks \<Longrightarrow> set ks \<subseteq> fst ` set a \<Longrightarrow>
   pop_both ks a b = Inr (fold AList.delete ks a, fold AList.delete ks b)"
proof (induction ks arbitrary: a b)
  case Nil
  then show ?case by simp
next
  case (Cons k ks)
  have kb: "fst ` set b = fst ` set a"
    using Cons.prems(1) by (metis set_map)
  have 1: "map fst (AList.delete k b) = map fst (AList.delete k a)"
    using Cons.prems(1) by (simp add: delete_keys)
  have 2: "set ks \<subseteq> fst ` set (AList.delete k a)"
    using Cons.prems(2,3) by (auto simp: delete_keys simp flip: set_map)
  show ?case
    using Cons.prems kb Cons.IH [OF 1 _ 2] by simp
qed

lemma keys_update_eq:
  "map fst b = map fst a \<Longrightarrow> map fst (AList.update k v b) = map fst (AList.update k w a)"
  by (simp add: update_keys)

lemma slg_inv_insert:
  "slg_inv st \<Longrightarrow> slg_inv (st\<lparr>CIDs := AList.update t c (CIDs st), CIDflags := AList.update t f (CIDflags st)\<rparr>)"
  by (simp add: slg_inv_def wf_update keys_update_eq)

lemma scan_lines_inv: "slg_inv st \<Longrightarrow> slg_inv (scan_lines ls ts1 st)"
  by (induction ls ts1 st rule: scan_lines.induct)
     (auto simp: slg_inv_insert Let_def split: option.splits)

lemma slg_doPruning_ok:
  assumes "slg_inv st"
  shows "\<exists>st'. slg_doPruning st = Inr st' \<and> slg_inv st' \<and> length (CIDs st') \<le> slg_MAX_HISTORY
               \<and> CIDs st' = fold AList.delete (surplus_keys slg_MAX_HISTORY (CIDs st)) (CIDs st)
               \<and> CIDflags st' = fold AList.delete (surplus_keys slg_MAX_HISTORY (CIDs st)) (CIDflags st)"
proof -
  let ?ks = "surplus_keys slg_MAX_HISTORY (CIDs st)"
  have wf: "wf_dict (CIDs st)" and eq: "map fst (CIDflags st) = map fst (CIDs st)"
    using assms by (simp_all add: slg_inv_def)
  have pop: "pop_both ?ks (CIDs st) (CIDflags st)
               = Inr (fold AList.delete ?ks (CIDs st), fold AList.delete ?ks (CIDflags st))"
    using eq surplus_keys_props(1,2) [OF wf] by (rule pop_both_ok)
  have "map fst (fold AList.delete ?ks (CIDflags st)) = map fst (fold AList.delete ?ks (CIDs st))"
    by (simp only: keys_fold_delete eq)
  then show ?thesis
    using pop wf length_pruned [OF wf, of slg_MAX_HISTORY]
    by (simp add: slg_doPruning_def slg_inv_def wf_fold_delete)
qed

lemma candidates_ok:
  "fst ` set d \<subseteq> fst ` set flags \<Longrightarrow>
   candidates d flags = Inr (filter (\<lambda>(k, c). map_of flags k = Some ''0'') d)"
proof (induction d)
  case Nil
  then show ?case by simp
next
  case (Cons kc d)
  obtain k c where kc: "kc = (k, c)" by (cases kc)
  from Cons.prems kc have "k \<in> fst ` set flags" by auto
  then obtain f where "map_of flags k = Some f"
    by (cases "map_of flags k") (simp_all add: map_of_eq_None_iff)
  with Cons kc show ?case by (auto simp: getitem_def)
qed

lemma getLogRecsWithCID_ok:
  assumes "slg_inv st"
  shows "\<exists>st' c. getLogRecsWithCID lines st = Inr (st', c) \<and> slg_inv st'
                \<and> length (CIDs st') \<le> slg_MAX_HISTORY
                \<and> c = filter (\<lambda>(k, c). map_of (CIDflags st') k = Some ''0'') (CIDs st')"
proof -
  from slg_doPruning_ok [OF scan_lines_inv [OF assms, of lines None]]
  obtain st' where 1: "slg_doPruning (scan_lines lines None st) = Inr st'" and 2: "slg_inv st'"
    and 3: "length (CIDs st') \<le> slg_MAX_HISTORY" by blast
  have "fst ` set (CIDs st') \<subseteq> fst ` set (CIDflags st')"
    using 2 by (metis slg_inv_def set_map subset_refl)
  from candidates_ok [OF this] 1 2 3 show ?thesis
    by (simp add: getLogRecsWithCID_def)
qed

lemma mdm_doPruning_ok:
  assumes "mdm_inv st"
  shows "\<exists>st'. mdm_doPruning st = Inr st' \<and> mdm_inv st' \<and> length (alert st') \<le> mdm_MAX_HISTORY
               \<and> length (phone st') \<le> mdm_MAX_HISTORY"
proof -
  let ?ks = "surplus_keys mdm_MAX_HISTORY (alert st)"
  have wf: "wf_dict (alert st)" and eq: "map fst (phone st) = map fst (alert st)"
    using assms by (simp_all add: mdm_inv_def)
  have pop: "pop_both ?ks (alert st) (phone st)
               = Inr (fold AList.delete ?ks (alert st), fold AList.delete ?ks (phone st))"
    using eq surplus_keys_props(1,2) [OF wf] by (rule pop_both_ok)
  have k: "map fst (fold AList.delete ?ks (phone st)) = map fst (fold AList.delete ?ks (alert st))"
    by (simp only: keys_fold_delete eq)
  then have "length (fold AList.delete ?ks (phone st)) = length (fold AList.delete ?ks (alert st))"
    by (metis length_map)
  then show ?thesis
    using pop wf k length_pruned [OF wf, of mdm_MAX_HISTORY]
    by (simp add: mdm_doPruning_def mdm_inv_def wf_fold_delete)
qed


lemma map_of_present:
  assumes that: "k \<in> fst ` set al"
  shows "\<exists>v. map_of al k = Some v \<and> (k, v) \<in> set al"
proof (cases "map_of al k")
  case None
  then have "k \<notin> fst ` set al" by (simp add: map_of_eq_None_iff)
  then show ?thesis using that by simp
next
  case (Some v)
  then have "(k, v) \<in> set al" by (rule map_of_SomeD)
  with Some show ?thesis by simp
qed

lemma isDuplicate_loop_iff:
  assumes "set keys \<subseteq> fst ` set (alert st)" and "set keys \<subseteq> fst ` set (phone st)"
  shows "isDuplicate_loop clock message recipient keys st
         = Inr (\<exists>k \<in> set keys. map_of (alert st) k = Some message
                  \<and> map_of (phone st) k = Some recipient
                  \<and> \<bar>truediv (clock k - k) 1000000000\<bar> \<le> of_int (RECENT_SECS st))"
  using assms
proof (induction keys)
  case Nil
  show ?case by simp
next
  case (Cons k keys)
  from Cons.prems obtain a p where a: "map_of (alert st) k = Some a" and p: "map_of (phone st) k = Some p"
    using map_of_present [of k "alert st"] map_of_present [of k "phone st"] by auto
  from Cons.prems have "set keys \<subseteq> fst ` set (alert st)" "set keys \<subseteq> fst ` set (phone st)"
    by simp_all
  from Cons.IH [OF this] a p show ?case
    by (auto simp: getitem_def)
qed

lemma isDuplicate_iff:
  assumes "mdm_inv st"
  shows "isDuplicate clock message recipient st
         = Inr (\<exists>k \<in> fst ` set (alert st). map_of (alert st) k = Some message
                  \<and> map_of (phone st) k = Some recipient
                  \<and> \<bar>truediv (clock k - k) 1000000000\<bar> \<le> of_int (RECENT_SECS st))"
proof -
  let ?keys = "rev (sort (map fst (alert st)))"
  have s: "set ?keys = fst ` set (alert st)" by simp
  have "fst ` set (phone st) = fst ` set (alert st)"
    using assms by (metis mdm_inv_def set_map)
  with s have "set ?keys \<subseteq> fst ` set (alert st)" "set ?keys \<subseteq> fst ` set (phone st)"
    by simp_all
  from isDuplicate_loop_iff [OF this] show ?thesis
    unfolding isDuplicate_def s .
qed

lemma saveHistory_inv: "mdm_inv st \<Longrightarrow> mdm_inv (saveHistory ts m r st)"
  by (simp add: mdm_inv_def saveHistory_def wf_update keys_update_eq)

lemma sendSMS_inv:
  assumes "mdm_inv st"
  shows "\<exists>rc st'. sendSMS cnf1 env message recipient st = Inr (rc, st') \<and> mdm_inv st'"
proof -
  have a: "mdm_inv (st\<lparr>attempts := attempts st @ [(recipient, message)]\<rparr>)"
    using assms by (simp add: mdm_inv_def)
  show ?thesis
    unfolding sendSMS_def isDuplicate_iff [OF assms]
    using assms saveHistory_inv [OF assms] saveHistory_inv [OF a]
    by (cases "reply env") (simp_all add: Let_def mdm_inv_def)
qed


lemma tel_inv_init: "tel_inv tel_init"
  by (simp add: tel_inv_def tel_init_def wf_dict_def)


section \<open>Capacity of the rolling histories\<close>

text \<open>C7: in every state whose dictionaries are well formed (distinct keys; the two
  dictionaries of the log scanner, and the two of the modem, under the same keys), a call of
  \<^verbatim>\<open>getNextMessage\<close> leaves at most 2 entries in each of the protocol histories, a call of
  \<^verbatim>\<open>getLogRecsWithCID\<close> returns and leaves at most 2 entries in the window of the log scanner,
  and a call of \<^verbatim>\<open>doPruning\<close> returns and leaves at most 16 entries in the SMS history. Each
  of these calls, and a call of \<^verbatim>\<open>sendSMS\<close>, which inserts into the SMS history, keeps the
  dictionaries well formed, so the bound holds after every such call of a sequence.\<close>

theorem history_capacity:
  "(tel_inv t \<longrightarrow>
      tel_inv (getNextMessage rx now t) \<and>
      (\<forall>h. length (recentMsgs (getNextMessage rx now t) h) \<le> 2))
   \<and> (slg_inv s \<longrightarrow>
      (\<exists>s' c. getLogRecsWithCID lines s = Inr (s', c) \<and> slg_inv s' \<and>
          length (CIDs s') \<le> 2 \<and> length (CIDflags s') \<le> 2))
   \<and> (mdm_inv m \<longrightarrow>
      (\<exists>m'. mdm_doPruning m = Inr m' \<and> mdm_inv m' \<and>
          length (alert m') \<le> 16 \<and> length (phone m') \<le> 16))
   \<and> (mdm_inv m \<longrightarrow>
      (\<exists>rc m'. sendSMS cnf1 env message recipient m = Inr (rc, m') \<and> mdm_inv m'))"
proof (intro conjI impI)
  assume "tel_inv t"
  then show "tel_inv (getNextMessage rx now t)"
    by (rule getNextMessage_inv)
next
  assume "tel_inv t"
  then show "\<forall>h. length (recentMsgs (getNextMessage rx now t) h) \<le> 2"
    using getNextMessage_length [of t rx now] by (simp add: tel_MAX_HISTORY_def)
next
  assume "slg_inv s"
  from getLogRecsWithCID_ok [OF this, of lines]
  obtain s' c where 1: "getLogRecsWithCID lines s = Inr (s', c)" and 2: "slg_inv s'"
    and 3: "length (CIDs s') \<le> slg_MAX_HISTORY" by blast
  from 2 have "length (CIDflags s') = length (CIDs s')"
    by (metis slg_inv_def length_map)
  with 1 2 3 show "\<exists>s' c. getLogRecsWithCID lines s = Inr (s', c) \<and> slg_inv s' \<and>
      length (CIDs s') \<le> 2 \<and> length (CIDflags s') \<le> 2"
    by (simp add: slg_MAX_HISTORY_def)
next
  assume "mdm_inv m"
  from mdm_doPruning_ok [OF this]
  show "\<exists>m'. mdm_doPruning m = Inr m' \<and> mdm_inv m' \<and>
      length (alert m') \<le> 16 \<and> length (phone m') \<le> 16"
    by (simp add: mdm_MAX_HISTORY_def)
next
  assume "mdm_inv m"
  then show "\<exists>rc m'. sendSMS cnf1 env message recipient m = Inr (rc, m') \<and> mdm_inv m'"
    by (rule sendSMS_inv)
qed

lemma example_tel_step:
  "recentMsgs (getNextMessage (Inr ''%03,1373010010$'') 30 example_tel) Msg03raw
     = [(20, ''%03,3131010030$''), (30, ''%03,1373010010$'')]"
  "recentMsgs (getNextMessage (Inr ''%03,1373010010$'') 30 example_tel) Msg03txt
     = [(20, ''CID=3131010030''), (30, ''CID=1373010010'')]"
  "recentMsgs (getNextMessage (Inr ''%03,1373010010$'') 30 example_tel) Msgflag03
     = [(20, ''1''), (30, ''1'')]"
  by (simp_all add: getNextMessage_def example_tel_def startswith_def store_message_def
      doType03_def index_def strip_chars_def setitem_def pruneAll_def prune_history_def
      surplus_keys_def tel_MAX_HISTORY_def)

lemma example_slg_step:
  "getLogRecsWithCID [(Date 300, Some ''1373010010''), (Date 400, Some ''3373010010'')] example_slg
     = Inr (\<lparr>CIDs = [(300, ''1373010010''), (400, ''3373010010'')],
              CIDflags = [(300, ''0''), (400, ''0'')]\<rparr>,
            [(300, ''1373010010''), (400, ''3373010010'')])"
  by (simp add: getLogRecsWithCID_def example_slg_def slg_doPruning_def
      surplus_keys_def slg_MAX_HISTORY_def getitem_def)

lemma example_mdm_step:
  "mdm_doPruning example_mdm
     = Inr \<lparr>alert = map (\<lambda>k. (k, ''FIRE zone 004'')) [17, 2, 3, 4, 5, 6, 7, 8, 9, 10, 11, 12, 13, 14, 15, 16],
            phone = map (\<lambda>k. (k, ''5550001'')) [17, 2, 3, 4, 5, 6, 7, 8, 9, 10, 11, 12, 13, 14, 15, 16],
            attempts = [], RECENT_SECS = 60\<rparr>"
  by (simp add: mdm_doPruning_def example_mdm_def surplus_keys_def mdm_MAX_HISTORY_def)

lemma example_inv: "tel_inv example_tel" "slg_inv example_slg" "mdm_inv example_mdm"
  by (simp_all add: tel_inv_def example_tel_def slg_inv_def example_slg_def mdm_inv_def
      example_mdm_def wf_dict_def)

theorem history_capacity_witness:
  "tel_inv example_tel
   \<and> (\<forall>h. length (recentMsgs (getNextMessage (Inr ''%03,1373010010$'') 30 example_tel) h) \<le> 2)
   \<and> map fst (recentMsgs (getNextMessage (Inr ''%03,1373010010$'') 30 example_tel) Msg03txt) = [20, 30]
   \<and> slg_inv example_slg
   \<and> (\<exists>s' c. getLogRecsWithCID [(Date 300, Some ''1373010010''), (Date 400, Some ''3373010010'')]
                example_slg = Inr (s', c)
         \<and> slg_inv s' \<and> length (CIDs s') \<le> 2 \<and> length (CIDflags s') \<le> 2
         \<and> map fst (CIDs s') = [300, 400])
   \<and> mdm_inv example_mdm \<and> length (alert example_mdm) = 17
   \<and> (\<exists>m'. mdm_doPruning example_mdm = Inr m' \<and> mdm_inv m'
         \<and> length (alert m') \<le> 16 \<and> length (phone m') \<le> 16
         \<and> map fst (alert m') = [17, 2, 3, 4, 5, 6, 7, 8, 9, 10, 11, 12, 13, 14, 15, 16])
   \<and> (\<exists>rc m'. sendSMS example_cnf \<lparr>clock_check = (\<lambda>k. 100000000000), clock_save = 100000000001, reply = ReplyOK\<rparr>
                 ''FIRE zone 004'' ''5550001'' example_mdm = Inr (rc, m') \<and> mdm_inv m')"
  using history_capacity [of example_tel "Inr ''%03,1373010010$''" 30 example_slg
      "[(Date 300, Some ''1373010010''), (Date 400, Some ''3373010010'')]" example_mdm
      example_cnf "\<lparr>clock_check = (\<lambda>k. 100000000000), clock_save = 100000000001, reply = ReplyOK\<rparr>"
      "''FIRE zone 004''" "''5550001''"]
    example_inv example_tel_step(2) example_slg_step example_mdm_step
  by (simp add: example_mdm_def)

section \<open>Zone bitmap\<close>

text \<open>C8 (evaluation at the failing input): zones 4 and 20 lie in groups 0 and 1; the
  decoder returns their numbers without a comma between them.\<close>

theorem doType01_two_groups:
  "doType01 ''%01,08000800000000000000000000000000$'' = Inr ''004020''"
  by (simp add: doType01_def index_def upt_conv_Cons slice_def strip_chars_def int16_def
      hexdigit_def doType01_group_def zone_tests_def bit_set_def fmt03d_def digit_char_def)

section \<open>Correlation of the log scanner with the protocol history\<close>

lemma update_fresh: "k \<notin> fst ` set al \<Longrightarrow> AList.update k v al = al @ [(k, v)]"
  by (induction al) auto




lemma isMatched_iff:
  "isMatched A msg03txt key1 cid = (\<exists>e \<in> set msg03txt. adjacent_match A key1 cid e)"
  by (simp add: isMatched_def list_ex_iff)

lemma flagAsReportedCID_ok:
  assumes "slg_inv st" and "k \<in> fst ` set (CIDs st)"
  shows "flagAsReportedCID k st = Inr (st\<lparr>CIDflags := AList.update k ''1'' (CIDflags st)\<rparr>)"
    and "slg_inv (st\<lparr>CIDflags := AList.update k ''1'' (CIDflags st)\<rparr>)"
proof -
  from assms(2) obtain c where "map_of (CIDs st) k = Some c"
    by (cases "map_of (CIDs st) k") (simp_all add: map_of_eq_None_iff)
  then show "flagAsReportedCID k st = Inr (st\<lparr>CIDflags := AList.update k ''1'' (CIDflags st)\<rparr>)"
    by (simp add: flagAsReportedCID_def getitem_def)
  have "k \<in> fst ` set (CIDflags st)"
    using assms by (metis slg_inv_def set_map)
  then show "slg_inv (st\<lparr>CIDflags := AList.update k ''1'' (CIDflags st)\<rparr>)"
    using assms by (simp add: slg_inv_def update_keys)
qed

text \<open>The matching loop, characterised.\<close>

lemma match_loop_ok:
  assumes "slg_inv st" and "fst ` set cs \<subseteq> fst ` set (CIDs st)"
    and "distinct (map fst cs)" and "fst ` set cs \<inter> fst ` set fin = {}"
  shows "\<exists>st'. match_loop A msg cs st fin
            = Inr (st', fin @ filter (\<lambda>(k, c). \<not> isMatched A msg k c) cs)
          \<and> slg_inv st' \<and> CIDs st' = CIDs st
          \<and> (\<forall>k. map_of (CIDflags st') k =
                (if k \<in> fst ` set (filter (\<lambda>(k, c). isMatched A msg k c) cs) then Some ''1''
                 else map_of (CIDflags st) k))"
  using assms
proof (induction cs arbitrary: st fin)
  case Nil
  then show ?case by simp
next
  case (Cons kc cs)
  obtain key1 cid where kc: "kc = (key1, cid)" by (cases kc)
  have sub: "fst ` set cs \<subseteq> fst ` set (CIDs st)" and dis: "distinct (map fst cs)"
    and k1: "key1 \<in> fst ` set (CIDs st)" and nk: "key1 \<notin> fst ` set cs" and nf: "key1 \<notin> fst ` set fin"
    using Cons.prems kc by auto
  show ?case
  proof (cases "isMatched A msg key1 cid")
    case True
    let ?st1 = "st\<lparr>CIDflags := AList.update key1 ''1'' (CIDflags st)\<rparr>"
    have f: "flagAsReportedCID key1 st = Inr ?st1" and i: "slg_inv ?st1"
      using flagAsReportedCID_ok [OF Cons.prems(1) k1] by simp_all
    have "fst ` set cs \<subseteq> fst ` set (CIDs ?st1)" using sub by simp
    from Cons.IH [OF i this dis, of fin] Cons.prems(4)
    obtain st' where IH: "match_loop A msg cs ?st1 fin
            = Inr (st', fin @ filter (\<lambda>(k, c). \<not> isMatched A msg k c) cs)"
          "slg_inv st'" "CIDs st' = CIDs ?st1"
          "\<forall>k. map_of (CIDflags st') k =
                (if k \<in> fst ` set (filter (\<lambda>(k, c). isMatched A msg k c) cs) then Some ''1''
                 else map_of (CIDflags ?st1) k)"
      by auto
    have m: "match_loop A msg (kc # cs) st fin = match_loop A msg cs ?st1 fin"
      using True kc f by simp
    have fl: "filter (\<lambda>(k, c). \<not> isMatched A msg k c) (kc # cs)
                = filter (\<lambda>(k, c). \<not> isMatched A msg k c) cs"
      using True kc by simp
    have fm: "fst ` set (filter (\<lambda>(k, c). isMatched A msg k c) (kc # cs))
                = insert key1 (fst ` set (filter (\<lambda>(k, c). isMatched A msg k c) cs))"
      using True kc by simp
    have "\<forall>k. map_of (CIDflags st') k =
                (if k \<in> fst ` set (filter (\<lambda>(k, c). isMatched A msg k c) (kc # cs)) then Some ''1''
                 else map_of (CIDflags st) k)"
      unfolding fm using IH(4) by (simp add: update_conv')
    with IH(1,2,3) show ?thesis
      unfolding m fl by (intro exI [of _ st']) simp
  next
    case False
    have u: "AList.update key1 cid fin = fin @ [(key1, cid)]"
      using nf by (rule update_fresh)
    have "fst ` set cs \<inter> fst ` set (fin @ [(key1, cid)]) = {}"
      using Cons.prems(4) nk by auto
    from Cons.IH [OF Cons.prems(1) sub dis this]
    obtain st' where IH: "match_loop A msg cs st (fin @ [(key1, cid)])
            = Inr (st', (fin @ [(key1, cid)]) @ filter (\<lambda>(k, c). \<not> isMatched A msg k c) cs)"
          "slg_inv st'" "CIDs st' = CIDs st"
          "\<forall>k. map_of (CIDflags st') k =
                (if k \<in> fst ` set (filter (\<lambda>(k, c). isMatched A msg k c) cs) then Some ''1''
                 else map_of (CIDflags st) k)"
      by auto
    have m: "match_loop A msg (kc # cs) st fin = match_loop A msg cs st (fin @ [(key1, cid)])"
      using False kc u by simp
    have fl: "fin @ filter (\<lambda>(k, c). \<not> isMatched A msg k c) (kc # cs)
                = (fin @ [(key1, cid)]) @ filter (\<lambda>(k, c). \<not> isMatched A msg k c) cs"
      using False kc by simp
    have fm: "fst ` set (filter (\<lambda>(k, c). isMatched A msg k c) (kc # cs))
                = fst ` set (filter (\<lambda>(k, c). isMatched A msg k c) cs)"
      using False kc by simp
    from IH show ?thesis
      unfolding m fl fm by (intro exI [of _ st']) simp
  qed
qed

lemma sort_Cons_min:
  assumes "sort xs = k0 # ks"
  shows "k0 \<in> set xs" and "\<forall>k \<in> set xs. k0 \<le> k"
proof -
  have s: "set (k0 # ks) = set xs" using assms by (metis set_sort)
  then show "k0 \<in> set xs" by auto
  have "sorted (k0 # ks)" using assms by (metis sorted_sort)
  then show "\<forall>k \<in> set xs. k0 \<le> k" using s by auto
qed

lemma scanSyslog_run:
  assumes inv: "slg_inv slg1"
  shows "\<exists>slg2 logscan slg3 slg' res.
     getLogRecsWithCID lines slg1 = Inr (slg2, logscan)
     \<and> distinct (map fst logscan) \<and> slg_inv slg'
     \<and> (\<forall>k \<in> fst ` set logscan. map_of (CIDflags slg2) k = Some ''0'')
     \<and> scanSyslog cnf1 lines nowts msg03txt slg1 = Inr (slg', res)
     \<and> (\<forall>k. map_of (CIDflags slg3) k =
           (if k \<in> fst ` set (filter (\<lambda>(k, c). isMatched (AdjacentSecondsEVL4 cnf1) msg03txt k c)
                  (filter (\<lambda>(x, c). \<bar>nowts - x\<bar> \<le> RecentSecondsEVL4 cnf1) logscan))
            then Some ''1'' else map_of (CIDflags slg2) k))
     \<and> (case sort (unmatched_recent cnf1 nowts msg03txt logscan) of
          [] \<Rightarrow> res = None \<and> slg' = slg3
        | k0 # ks \<Rightarrow> (\<exists>c. (k0, c) \<in> set logscan \<and> res = Some c)
                     \<and> slg' = slg3\<lparr>CIDflags := AList.update k0 ''1'' (CIDflags slg3)\<rparr>)"
proof -
  let ?A = "AdjacentSecondsEVL4 cnf1"
  from getLogRecsWithCID_ok [OF inv, of lines]
  obtain slg2 logscan where g: "getLogRecsWithCID lines slg1 = Inr (slg2, logscan)"
    and i2: "slg_inv slg2"
    and ls: "logscan = filter (\<lambda>(k, c). map_of (CIDflags slg2) k = Some ''0'') (CIDs slg2)"
    by blast
  let ?chk = "filter (\<lambda>(x, c). \<bar>nowts - x\<bar> \<le> RecentSecondsEVL4 cnf1) logscan"
  have d: "distinct (map fst logscan)"
    using i2 unfolding ls slg_inv_def wf_dict_def by (simp add: distinct_map_filter)
  have dc: "distinct (map fst ?chk)"
    using d by (simp add: distinct_map_filter)
  have sub: "fst ` set ?chk \<subseteq> fst ` set (CIDs slg2)"
    unfolding ls by auto
  from match_loop_ok [OF i2 sub dc, of "[]" ?A msg03txt]
  obtain slg3 where m: "match_loop ?A msg03txt ?chk slg2 []
        = Inr (slg3, filter (\<lambda>(k, c). \<not> isMatched ?A msg03txt k c) ?chk)"
    and i3: "slg_inv slg3" and c3: "CIDs slg3 = CIDs slg2"
    and f3: "\<forall>k. map_of (CIDflags slg3) k =
           (if k \<in> fst ` set (filter (\<lambda>(k, c). isMatched ?A msg03txt k c) ?chk)
            then Some ''1'' else map_of (CIDflags slg2) k)"
    by auto
  let ?fin = "filter (\<lambda>(k, c). \<not> isMatched ?A msg03txt k c) ?chk"
  have fin: "map fst ?fin = unmatched_recent cnf1 nowts msg03txt logscan"
    unfolding unmatched_recent_def isMatched_iff
    by (simp add: case_prod_unfold)
  have finsub: "set ?fin \<subseteq> set logscan" by auto
  have z: "\<forall>k \<in> fst ` set logscan. map_of (CIDflags slg2) k = Some ''0''"
    unfolding ls by auto
  show ?thesis
  proof (cases "sort (unmatched_recent cnf1 nowts msg03txt logscan)")
    case Nil
    then have "scanSyslog cnf1 lines nowts msg03txt slg1 = Inr (slg3, None)"
      using g m fin by (simp add: scanSyslog_def)
    with g d i3 f3 z Nil show ?thesis
      by (intro exI [of _ slg2] exI [of _ logscan] exI [of _ slg3] exI [of _ slg3] exI [of _ None]) simp
  next
    case (Cons k0 ks)
    have "k0 \<in> set (map fst ?fin)"
      using sort_Cons_min(1) [OF Cons] by (simp only: fin)
    then have k0: "k0 \<in> fst ` set ?fin"
      by (simp only: set_map)
    from map_of_present [OF k0]
    obtain c where c: "map_of ?fin k0 = Some c" "(k0, c) \<in> set ?fin"
      by (elim exE conjE)
    have "k0 \<in> fst ` set (CIDs slg3)"
      using k0 sub c3 by auto
    from flagAsReportedCID_ok [OF i3 this]
    have fl: "flagAsReportedCID k0 slg3 = Inr (slg3\<lparr>CIDflags := AList.update k0 ''1'' (CIDflags slg3)\<rparr>)"
      and i4: "slg_inv (slg3\<lparr>CIDflags := AList.update k0 ''1'' (CIDflags slg3)\<rparr>)"
      by simp_all
    have "scanSyslog cnf1 lines nowts msg03txt slg1
            = Inr (slg3\<lparr>CIDflags := AList.update k0 ''1'' (CIDflags slg3)\<rparr>, Some c)"
      using g m fin Cons fl c(1) by (simp add: scanSyslog_def getitem_def)
    moreover have "(k0, c) \<in> set logscan" using c(2) finsub by blast
    ultimately show ?thesis
      using g d i4 f3 z Cons
      by (intro exI [of _ slg2] exI [of _ logscan] exI [of _ slg3]
            exI [of _ "slg3\<lparr>CIDflags := AList.update k0 ''1'' (CIDflags slg3)\<rparr>"] exI [of _ "Some c"])
         simp
  qed
qed

















section \<open>The reported flag of the log scanner\<close>

lemma map_of_fold_delete:
  "map_of (fold AList.delete ks d) k = (if k \<in> set ks then None else map_of d k)"
proof (induction ks arbitrary: d)
  case Nil
  then show ?case by simp
next
  case (Cons a ks)
  then show ?case by (simp add: delete_conv')
qed

lemma scan_lines_flags:
  "k \<notin> set (stored_keys ls ts1) \<Longrightarrow>
   map_of (CIDflags (scan_lines ls ts1 st)) k = map_of (CIDflags st) k"
  by (induction ls ts1 st rule: scan_lines.induct)
     (auto simp: Let_def update_conv' split: option.splits)

lemma flags_inv_insert:
  "flags_inv st \<Longrightarrow> f = ''0'' \<or> f = ''1'' \<Longrightarrow>
   flags_inv (st\<lparr>CIDs := a, CIDflags := AList.update t f (CIDflags st)\<rparr>)"
  by (simp add: flags_inv_def update_conv')

lemma flags_inv_update1:
  "flags_inv st \<Longrightarrow> flags_inv (st\<lparr>CIDflags := AList.update k ''1'' (CIDflags st)\<rparr>)"
  by (simp add: flags_inv_def update_conv')

lemma scan_lines_flags_inv: "flags_inv st \<Longrightarrow> flags_inv (scan_lines ls ts1 st)"
  by (induction ls ts1 st rule: scan_lines.induct)
     (auto simp: Let_def flags_inv_insert split: option.splits)

lemma getLogRecsWithCID_flags:
  assumes "slg_inv st" and "getLogRecsWithCID lines st = Inr (st', c)"
  shows "slg_inv st'"
    and "flags_inv st \<Longrightarrow> flags_inv st'"
    and "k \<notin> set (stored_keys lines None) \<Longrightarrow>
         map_of (CIDflags st') k = map_of (CIDflags st) k \<or> map_of (CIDflags st') k = None"
proof -
  let ?s = "scan_lines lines None st"
  from slg_doPruning_ok [OF scan_lines_inv [OF assms(1), of lines None]]
  obtain s' where p: "slg_doPruning ?s = Inr s'" and i: "slg_inv s'"
    and f: "CIDflags s' = fold AList.delete (surplus_keys slg_MAX_HISTORY (CIDs ?s)) (CIDflags ?s)"
    by blast
  have eq: "st' = s'"
    using assms(2) p by (auto simp: getLogRecsWithCID_def split: sum.splits)
  show "slg_inv st'" using i eq by simp
  show "flags_inv st'" if "flags_inv st"
  proof -
    have "flags_inv ?s" using that by (rule scan_lines_flags_inv)
    then show ?thesis
      unfolding eq flags_inv_def f by (simp add: map_of_fold_delete)
  qed
  show "map_of (CIDflags st') k = map_of (CIDflags st) k \<or> map_of (CIDflags st') k = None"
    if "k \<notin> set (stored_keys lines None)"
    using scan_lines_flags [OF that, of st] unfolding eq f
    by (simp add: map_of_fold_delete)
qed

lemma flagAsReportedCID_step:
  assumes "flagAsReportedCID k' st = Inr st'"
  shows "st' = st\<lparr>CIDflags := AList.update k' ''1'' (CIDflags st)\<rparr>"
    and "k' \<in> fst ` set (CIDs st)"
proof -
  from assms obtain c where c: "map_of (CIDs st) k' = Some c"
    by (auto simp: flagAsReportedCID_def getitem_def split: option.splits)
  with assms show "st' = st\<lparr>CIDflags := AList.update k' ''1'' (CIDflags st)\<rparr>"
    by (simp add: flagAsReportedCID_def getitem_def)
  from c have "(k', c) \<in> set (CIDs st)" by (rule map_of_SomeD)
  then show "k' \<in> fst ` set (CIDs st)" by (rule image_eqI [rotated]) simp
qed

lemma recent_loop_props:
  "recent_loop R flag nowts d flags = Inr r \<Longrightarrow>
   set r \<subseteq> set d \<and> (\<forall>(k, c) \<in> set r. map_of flags k = Some flag)"
proof (induction d arbitrary: r)
  case Nil
  then show ?case by simp
next
  case (Cons kc d)
  obtain key cid where kc: "kc = (key, cid)" by (cases kc)
  show ?case
  proof (cases "\<bar>nowts - key\<bar> \<le> R")
    case True
    with Cons.prems kc obtain f r' where f: "map_of flags key = Some f"
      and r': "recent_loop R flag nowts d flags = Inr r'"
      and r: "r = (if f = flag then (key, cid) # r' else r')"
      by (auto simp: getitem_def split: option.splits sum.splits)
    from Cons.IH [OF r'] f r kc show ?thesis by auto
  next
    case False
    with Cons.prems kc have "recent_loop R flag nowts d flags = Inr r" by simp
    from Cons.IH [OF this] show ?thesis by auto
  qed
qed

lemma check_loop_step:
  "check_loop A msg keysTPI isReptd cs st = Inr (st', b) \<Longrightarrow>
   st' = st \<or> (\<not> isReptd \<and> (\<exists>(k, c) \<in> set cs. flagAsReportedCID k st = Inr st'))"
proof (induction cs)
  case Nil
  then show ?case by simp
next
  case (Cons kc cs)
  note prems = Cons.prems and IH = Cons.IH
  obtain key1 cid where kc: "kc = (key1, cid)" by (cases kc)
  show ?case
  proof (cases keysTPI)
    case Nil
    with prems IH kc show ?thesis by auto
  next
    case ktpi: (Cons k0 ks)
    with prems kc obtain tx where t: "getitem msg k0 = Inr tx"
      by (auto split: sum.splits)
    show ?thesis
    proof (cases "adjacent_match A key1 cid (k0, tx)")
      case True
      with prems kc ktpi t show ?thesis
        by (auto split: if_splits sum.splits)
    next
      case False
      with prems kc ktpi t have "check_loop A msg keysTPI isReptd cs st = Inr (st', b)"
        by simp
      from IH [OF this] show ?thesis by auto
    qed
  qed
qed

lemma flag_update_move:
  assumes "flags_inv st" and "k' \<in> fst ` set (CIDflags st)"
  shows "map_of (AList.update k' ''1'' (CIDflags st)) k = map_of (CIDflags st) k
       \<or> (map_of (CIDflags st) k = Some ''0'' \<and> map_of (AList.update k' ''1'' (CIDflags st)) k = Some ''1'')"
proof (cases "k = k'")
  case True
  from assms(2) have n: "map_of (CIDflags st) k' \<noteq> None"
    by (simp add: map_of_eq_None_iff)
  have "map_of (CIDflags st) k' = None \<or> map_of (CIDflags st) k' = Some ''0''
      \<or> map_of (CIDflags st) k' = Some ''1''"
    using assms(1) unfolding flags_inv_def by (rule spec)
  then have "map_of (CIDflags st) k' = Some ''0'' \<or> map_of (CIDflags st) k' = Some ''1''"
    using n by (elim disjE) simp_all
  with True show ?thesis by (auto simp: update_conv')
next
  case False
  then show ?thesis by (simp add: update_conv')
qed

lemma flag_step_move:
  assumes i: "slg_inv st" and f: "flags_inv st" and s: "flagAsReportedCID k' st = Inr st'"
  shows "slg_inv st'" and "flags_inv st'"
    and "map_of (CIDflags st') k = map_of (CIDflags st) k
       \<or> (map_of (CIDflags st) k = Some ''0'' \<and> map_of (CIDflags st') k = Some ''1'')"
proof -
  note st' = flagAsReportedCID_step(1) [OF s] and k' = flagAsReportedCID_step(2) [OF s]
  show "slg_inv st'" unfolding st' using i k' by (rule flagAsReportedCID_ok(2))
  show "flags_inv st'" unfolding st' using f by (rule flags_inv_update1)
  have "k' \<in> fst ` set (CIDflags st)"
    using k' i by (metis slg_inv_def set_map)
  from flag_update_move [OF f this, of k]
  show "map_of (CIDflags st') k = map_of (CIDflags st) k
       \<or> (map_of (CIDflags st) k = Some ''0'' \<and> map_of (CIDflags st') k = Some ''1'')"
    unfolding st' by simp
qed

lemma checkSyslog_move:
  assumes i: "slg_inv st" and f: "flags_inv st"
    and s: "checkSyslog cnf1 nowts msg isReptd st = Inr (st', b)"
  shows "slg_inv st'" and "flags_inv st'"
    and "map_of (CIDflags st') k = map_of (CIDflags st) k
       \<or> (map_of (CIDflags st) k = Some ''0'' \<and> map_of (CIDflags st') k = Some ''1'')"
proof -
  from s obtain recentCIDs where
    r: "getRecentCIDs (RecentSecondsEVL4 cnf1) isReptd nowts st = Inr recentCIDs"
    and c: "check_loop (AdjacentSecondsEVL4 cnf1) msg (rev (sort (map fst msg))) isReptd
              (rev (sort_key fst recentCIDs)) st = Inr (st', b)"
    by (auto simp: checkSyslog_def split: sum.splits)
  from check_loop_step [OF c]
  have "st' = st \<or> (\<exists>k'. flagAsReportedCID k' st = Inr st')"
    by auto
  then have "slg_inv st' \<and> flags_inv st' \<and> (map_of (CIDflags st') k = map_of (CIDflags st) k
       \<or> (map_of (CIDflags st) k = Some ''0'' \<and> map_of (CIDflags st') k = Some ''1''))"
  proof
    assume "st' = st"
    with i f show ?thesis by simp
  next
    assume "\<exists>k'. flagAsReportedCID k' st = Inr st'"
    then obtain k' where fk: "flagAsReportedCID k' st = Inr st'" ..
    from flag_step_move(1,2) [OF i f fk] flag_step_move(3) [OF i f fk, where k = k]
    show ?thesis by auto
  qed
  then show "slg_inv st'" and "flags_inv st'"
    and "map_of (CIDflags st') k = map_of (CIDflags st) k
       \<or> (map_of (CIDflags st) k = Some ''0'' \<and> map_of (CIDflags st') k = Some ''1'')"
    by simp_all
qed

lemma scanSyslog_move:
  assumes i: "slg_inv st" and f: "flags_inv st"
    and s: "scanSyslog cnf1 lines nowts msg st = Inr (st', r)"
  shows "slg_inv st'" and "flags_inv st'"
    and "k \<notin> set (stored_keys lines None) \<Longrightarrow>
       map_of (CIDflags st') k = map_of (CIDflags st) k
       \<or> (map_of (CIDflags st) k = Some ''0'' \<and> map_of (CIDflags st') k = Some ''1'')
       \<or> map_of (CIDflags st') k = None"
proof -
  from scanSyslog_run [OF i, of lines cnf1 nowts msg]
  obtain slg2 logscan slg3 slg' res where
    g: "getLogRecsWithCID lines st = Inr (slg2, logscan)"
    and i': "slg_inv slg'"
    and z: "\<forall>k \<in> fst ` set logscan. map_of (CIDflags slg2) k = Some ''0''"
    and s': "scanSyslog cnf1 lines nowts msg st = Inr (slg', res)"
    and f3: "\<forall>k. map_of (CIDflags slg3) k =
           (if k \<in> fst ` set (filter (\<lambda>(k, c). isMatched (AdjacentSecondsEVL4 cnf1) msg k c)
                  (filter (\<lambda>(x, c). \<bar>nowts - x\<bar> \<le> RecentSecondsEVL4 cnf1) logscan))
            then Some ''1'' else map_of (CIDflags slg2) k)"
    and c: "case sort (unmatched_recent cnf1 nowts msg logscan) of
          [] \<Rightarrow> res = None \<and> slg' = slg3
        | k0 # ks \<Rightarrow> (\<exists>c. (k0, c) \<in> set logscan \<and> res = Some c)
                     \<and> slg' = slg3\<lparr>CIDflags := AList.update k0 ''1'' (CIDflags slg3)\<rparr>"
    by (elim exE conjE)
  have eq: "st' = slg'" using s s' by simp
  show "slg_inv st'" using i' eq by simp
  have B: "map_of (CIDflags slg3) k = map_of (CIDflags slg2) k
      \<or> (map_of (CIDflags slg3) k = Some ''1'' \<and> k \<in> fst ` set logscan)" for k
  proof (cases "k \<in> fst ` set (filter (\<lambda>(k, c). isMatched (AdjacentSecondsEVL4 cnf1) msg k c)
                  (filter (\<lambda>(x, c). \<bar>nowts - x\<bar> \<le> RecentSecondsEVL4 cnf1) logscan))")
    case True
    then have "k \<in> fst ` set logscan" by auto
    with True f3 show ?thesis by simp
  next
    case False
    with f3 show ?thesis by simp
  qed
  have A: "map_of (CIDflags slg') k = map_of (CIDflags slg3) k
      \<or> (map_of (CIDflags slg') k = Some ''1'' \<and> k \<in> fst ` set logscan)" for k
  proof (cases "sort (unmatched_recent cnf1 nowts msg logscan)")
    case Nil
    with c show ?thesis by simp
  next
    case (Cons k0 ks)
    with c obtain c0 where m: "(k0, c0) \<in> set logscan"
      and e: "slg' = slg3\<lparr>CIDflags := AList.update k0 ''1'' (CIDflags slg3)\<rparr>" by auto
    from m have "k0 \<in> fst ` set logscan" by (rule image_eqI [rotated]) simp
    with e show ?thesis by (cases "k = k0") (simp_all add: update_conv')
  qed
  have C: "map_of (CIDflags slg') k = map_of (CIDflags slg2) k
      \<or> (map_of (CIDflags slg') k = Some ''1'' \<and> map_of (CIDflags slg2) k = Some ''0'')" for k
    using A [of k] B [of k] z by auto
  have f2: "flags_inv slg2" using f by (rule getLogRecsWithCID_flags(2) [OF i g])
  show "flags_inv st'"
    unfolding eq flags_inv_def
  proof
    fix k
    from f2 have "map_of (CIDflags slg2) k = None \<or> map_of (CIDflags slg2) k = Some ''0''
          \<or> map_of (CIDflags slg2) k = Some ''1''"
      unfolding flags_inv_def by (rule spec)
    with C [of k] show "map_of (CIDflags slg') k = None \<or> map_of (CIDflags slg') k = Some ''0''
          \<or> map_of (CIDflags slg') k = Some ''1''" by auto
  qed
  show "map_of (CIDflags st') k = map_of (CIDflags st) k
       \<or> (map_of (CIDflags st) k = Some ''0'' \<and> map_of (CIDflags st') k = Some ''1'')
       \<or> map_of (CIDflags st') k = None"
    if "k \<notin> set (stored_keys lines None)"
    using getLogRecsWithCID_flags(3) [OF i g that] C [of k] unfolding eq by auto
qed

lemma slg_step_move:
  assumes i: "slg_inv st" and f: "flags_inv st" and s: "slg_step cnf1 op st = Inr st'"
  shows "slg_inv st'" and "flags_inv st'"
    and "k \<notin> set (ingested op) \<Longrightarrow>
       map_of (CIDflags st') k = map_of (CIDflags st) k
       \<or> (map_of (CIDflags st) k = Some ''0'' \<and> map_of (CIDflags st') k = Some ''1'')
       \<or> map_of (CIDflags st') k = None"
proof -
  have "slg_inv st' \<and> flags_inv st' \<and> (k \<notin> set (ingested op) \<longrightarrow>
       map_of (CIDflags st') k = map_of (CIDflags st) k
       \<or> (map_of (CIDflags st) k = Some ''0'' \<and> map_of (CIDflags st') k = Some ''1'')
       \<or> map_of (CIDflags st') k = None)"
  proof (cases op)
    case (GetLogRecs lines)
    with s obtain c where g: "getLogRecsWithCID lines st = Inr (st', c)"
      by (cases "getLogRecsWithCID lines st") auto
    from getLogRecsWithCID_flags(1,2) [OF i g] getLogRecsWithCID_flags(3) [OF i g, where k = k]
      f GetLogRecs show ?thesis by auto
  next
    case (FlagAsReported k')
    with s have fk: "flagAsReportedCID k' st = Inr st'" by simp
    from flag_step_move(1,2) [OF i f fk] flag_step_move(3) [OF i f fk, where k = k]
    show ?thesis by auto
  next
    case (ScanSyslog lines nowts msg)
    with s obtain r where g: "scanSyslog cnf1 lines nowts msg st = Inr (st', r)"
      by (cases "scanSyslog cnf1 lines nowts msg st") auto
    from scanSyslog_move(1,2) [OF i f g] scanSyslog_move(3) [OF i f g, where k = k]
      ScanSyslog show ?thesis by auto
  next
    case (CheckSyslog nowts msg isReptd)
    with s obtain b where ck: "checkSyslog cnf1 nowts msg isReptd st = Inr (st', b)"
      by (cases "checkSyslog cnf1 nowts msg isReptd st") auto
    from checkSyslog_move(1,2) [OF i f ck] checkSyslog_move(3) [OF i f ck, where k = k]
    show ?thesis by auto
  qed
  then show "slg_inv st'" and "flags_inv st'"
    and "k \<notin> set (ingested op) \<Longrightarrow>
       map_of (CIDflags st') k = map_of (CIDflags st) k
       \<or> (map_of (CIDflags st) k = Some ''0'' \<and> map_of (CIDflags st') k = Some ''1'')
       \<or> map_of (CIDflags st') k = None"
    by simp_all
qed

lemma slg_run_one_way:
  "slg_inv st \<Longrightarrow> flags_inv st \<Longrightarrow> slg_run cnf1 ops st = Inr st' \<Longrightarrow>
   k \<notin> set (concat (map ingested ops)) \<Longrightarrow>
   map_of (CIDflags st) k = Some ''1'' \<or> map_of (CIDflags st) k = None \<Longrightarrow>
   map_of (CIDflags st') k = Some ''1'' \<or> map_of (CIDflags st') k = None"
proof (induction ops arbitrary: st)
  case Nil
  then show ?case by simp
next
  case (Cons op ops)
  from Cons.prems(3) obtain st1 where s1: "slg_step cnf1 op st = Inr st1"
    and r: "slg_run cnf1 ops st1 = Inr st'"
    by (cases "slg_step cnf1 op st") auto
  have k1: "k \<notin> set (ingested op)" and k2: "k \<notin> set (concat (map ingested ops))"
    using Cons.prems(4) by simp_all
  from slg_step_move(3) [OF Cons.prems(1,2) s1 k1] Cons.prems(5)
  have "map_of (CIDflags st1) k = Some ''1'' \<or> map_of (CIDflags st1) k = None" by auto
  with Cons.IH [OF slg_step_move(1,2) [OF Cons.prems(1,2) s1] r k2] show ?case by simp
qed

text \<open>C9 as stated fails: a log scan that reads a line bearing the time stamp of an entry
  stores the line under that key and writes the flag \<^verbatim>\<open>'0'\<close>, also when the entry was
  flagged \<^verbatim>\<open>'1'\<close> before. Here the same line (same second, same code) is read by two scans,
  with a call of \<^verbatim>\<open>flagAsReportedCID\<close> between them.\<close>

theorem reported_flag_reset_counterexample:
  "slg_run example_cnf [GetLogRecs [(Date 1000, Some ''1131010030'')], FlagAsReported 1000] slg_init
     = Inr \<lparr>CIDs = [(1000, ''1131010030'')], CIDflags = [(1000, ''1'')]\<rparr>
   \<and> slg_run example_cnf [GetLogRecs [(Date 1000, Some ''1131010030'')], FlagAsReported 1000,
                           GetLogRecs [(Date 1000, Some ''1131010030'')]] slg_init
     = Inr \<lparr>CIDs = [(1000, ''1131010030'')], CIDflags = [(1000, ''0'')]\<rparr>"
  by (simp add: getLogRecsWithCID_def slg_init_def slg_doPruning_def surplus_keys_def
      slg_MAX_HISTORY_def getitem_def flagAsReportedCID_def)

text \<open>C9 (amended): in a run of passes in any order from a well-formed state, a flag that
  is \<^verbatim>\<open>'1'\<close> stays \<^verbatim>\<open>'1'\<close> until its entry is evicted, provided no pass of the run
  stores a line under the entry's time stamp; and a single such pass leaves the flag as it
  was, or moves it from \<^verbatim>\<open>'0'\<close> to \<^verbatim>\<open>'1'\<close>, or evicts the entry.\<close>

theorem reported_flag_one_way:
  assumes "slg_inv st" and "flags_inv st"
    and "slg_run cnf1 ops st = Inr st'"
    and "k \<notin> set (concat (map ingested ops))"
  shows "(map_of (CIDflags st) k = Some ''1'' \<longrightarrow>
            map_of (CIDflags st') k = Some ''1'' \<or> map_of (CIDflags st') k = None)
       \<and> (length ops = 1 \<longrightarrow>
            map_of (CIDflags st') k = map_of (CIDflags st) k
            \<or> (map_of (CIDflags st) k = Some ''0'' \<and> map_of (CIDflags st') k = Some ''1'')
            \<or> map_of (CIDflags st') k = None)"
proof (intro conjI impI)
  assume "map_of (CIDflags st) k = Some ''1''"
  then have "map_of (CIDflags st) k = Some ''1'' \<or> map_of (CIDflags st) k = None" by simp
  with assms show "map_of (CIDflags st') k = Some ''1'' \<or> map_of (CIDflags st') k = None"
    by (rule slg_run_one_way)
next
  assume "length ops = 1"
  then obtain op where ops: "ops = [op]"
    by (cases ops) auto
  with assms(3) have s: "slg_step cnf1 op st = Inr st'"
    by (cases "slg_step cnf1 op st") auto
  from assms(4) ops have "k \<notin> set (ingested op)" by simp
  with assms(1,2) s show "map_of (CIDflags st') k = map_of (CIDflags st) k
            \<or> (map_of (CIDflags st) k = Some ''0'' \<and> map_of (CIDflags st') k = Some ''1'')
            \<or> map_of (CIDflags st') k = None"
    by (rule slg_step_move(3))
qed

lemma example_run:
  "slg_run example_cnf [GetLogRecs [(Date 1005, Some ''3441010010'')], ScanSyslog [] 1010 []]
      \<lparr>CIDs = [(1000, ''1131010030'')], CIDflags = [(1000, ''1'')]\<rparr>
   = Inr \<lparr>CIDs = [(1000, ''1131010030''), (1005, ''3441010010'')],
           CIDflags = [(1000, ''1''), (1005, ''1'')]\<rparr>"
  by (simp add: scanSyslog_def getLogRecsWithCID_def slg_doPruning_def
      surplus_keys_def slg_MAX_HISTORY_def getitem_def example_cnf_def isMatched_def
      adjacent_match_def flagAsReportedCID_def)

theorem reported_flag_one_way_witness:
  "slg_inv \<lparr>CIDs = [(1000, ''1131010030'')], CIDflags = [(1000, ''1'')]\<rparr>
   \<and> flags_inv \<lparr>CIDs = [(1000, ''1131010030'')], CIDflags = [(1000, ''1'')]\<rparr>
   \<and> (\<exists>st'. slg_run example_cnf [GetLogRecs [(Date 1005, Some ''3441010010'')], ScanSyslog [] 1010 []]
              \<lparr>CIDs = [(1000, ''1131010030'')], CIDflags = [(1000, ''1'')]\<rparr> = Inr st'
          \<and> map_of (CIDflags st') 1000 = Some ''1'')
   \<and> (1000::int) \<notin> set (concat (map ingested
          [GetLogRecs [(Date 1005, Some ''3441010010'')], ScanSyslog [] 1010 []]))"
proof -
  let ?st = "\<lparr>CIDs = [(1000, ''1131010030'')], CIDflags = [(1000, ''1'')]\<rparr>"
  let ?ops = "[GetLogRecs [(Date 1005, Some ''3441010010'')], ScanSyslog [] 1010 []]"
  have i: "slg_inv ?st" by (simp add: slg_inv_def wf_dict_def)
  have f: "flags_inv ?st" by (simp add: flags_inv_def)
  have k: "(1000::int) \<notin> set (concat (map ingested ?ops))" by simp
  from reported_flag_one_way [OF i f example_run k]
  show ?thesis using i f k example_run by simp
qed

section \<open>Budget gate\<close>







lemma quarter: "(2::real) powr of_int (- 2) = 1 / 4"
  by (simp add: powr_neg_numeral)

lemma truediv_4_exact:
  assumes "n < 2 ^ 53"
  shows "truediv (int n) 4 = of_nat n / 4"
proof -
  have "\<bar>int n\<bar> < 2 ^ 53" using assms by simp
  from fl_dyadic [OF this, of "- 2"]
  have "fl (of_int (int n) * (1 / 4)) = of_int (int n) * (1 / 4)" unfolding quarter .
  then show ?thesis by (simp add: truediv_def)
qed

lemma avgphonect_exact:
  assumes "phones_total cnf1 < 2 ^ 53"
  shows "avgphonect cnf1 = of_nat (phones_total cnf1) / 4"
  using truediv_4_exact [OF assms] unfolding avgphonect_def phones_total_def .


lemma avgphonect_spec:
  "phones_total cnf1 < 2 ^ 53 \<Longrightarrow> avgphonect cnf1 = spec_avgPhones cnf1"
  by (simp add: avgphonect_exact spec_avgPhones_def)




lemma days_in_month_ge: "28 \<le> days_in_month y m"
  by (simp add: days_in_month_def)







lemma fl_numeral: "\<bar>numeral k :: int\<bar> < 2 ^ 53 \<Longrightarrow> fl (numeral k) = numeral k"
  using fl_of_int [of "numeral k"] by simp

lemma fl_one: "fl 1 = 1"
  using fl_of_int [of 1] by simp

lemma fl_zero: "fl 0 = 0"
  by (simp add: fl_def)

lemma fl_quarter: "fl (1 / 4) = 1 / 4"
proof -
  have "\<bar>1 :: int\<bar> < 2 ^ 53" by simp
  from fl_dyadic [OF this, of "- 2"]
  have "fl (of_int 1 * (1 / 4)) = of_int 1 * (1 / 4)" unfolding quarter .
  then show ?thesis by (simp only: of_int_1 mult_1)
qed

lemmas gate_eval = optimizeSMS_def renewal_check_def days_to_go_def strptime_def
  days_in_month_def leap_year_def ordinal_def days_before_year_def days_before_month_def
  example_cnf_def avgphonect_def riskpc_def usage_ok_def truediv_def float_of_int_def
  fl_numeral fl_one fl_zero fl_quarter py_round_def Let_def


lemma optimizeSMS_at_risk_25:
  "optimizeSMS (2022, 7, 5) (example_cnf\<lparr>CountSMS := 60\<rparr>)
     = Inr (example_cnf\<lparr>CountSMS := 60\<rparr>, (True, True, True))"
  "riskpc (example_cnf\<lparr>CountSMS := 60\<rparr>) 10 = 25"
  by (simp_all add: gate_eval)

lemma optimizeSMS_at_allowance:
  "optimizeSMS (2022, 7, 5) (example_cnf\<lparr>CountSMS := 99\<rparr>)
     = Inr (example_cnf\<lparr>CountSMS := 99\<rparr>, (True, False, False))"
  "riskpc (example_cnf\<lparr>CountSMS := 99\<rparr>) 10 = 1000"
  by (simp_all add: gate_eval)









end
